theory Spec2Isabelle
  imports Complex_Main
begin

section \<open>The E8 fractal power module (e8\_fractal\_power\_module.py)\<close>

text \<open>
  A shallow embedding of the numerical core. Arrays are lists; in-place mutation is
  explicit state passing; exceptions are values of the type \<open>error\<close>. Rounding is
  idealised: a finite float is a real number and a finite result within range is the
  exact one. The root system, the constructor and the control step are computed over the
  reals: the macro values and the two rates are finite floats, and the control step is
  taken without overflow. The renderer, whose base gain the caller chooses freely, is
  computed over \<open>fval\<close>: finite values, the two infinities and NaN, with overflow at the
  float32 and float64 limits and the IEEE rules for the non-finite cases.
\<close>

subsection \<open>Errors and numeric helpers\<close>

datatype error = ValueError | ZeroDivisionError | AssertionError

text \<open>Python's \<open>x % y\<close> on floats: the result has the sign of the divisor.\<close>

definition fmod :: "real \<Rightarrow> real \<Rightarrow> real" where
  "fmod x y = x - y * of_int \<lfloor>x / y\<rfloor>"

text \<open>\<open>np.clip(x, lo, hi)\<close>.\<close>

definition clip :: "real \<Rightarrow> real \<Rightarrow> real \<Rightarrow> real" where
  "clip x lo hi = min (max x lo) hi"

text \<open>Python's built-in \<open>round\<close> on a float: to the nearest integer, ties to even.\<close>

definition py_round :: "real \<Rightarrow> int" where
  "py_round x =
     (let f = \<lfloor>x\<rfloor>; d = x - of_int f
      in if d < 1 / 2 then f
         else if 1 / 2 < d then f + 1
         else if even f then f else f + 1)"

text \<open>Python's \<open>int(v)\<close> on a float: truncation towards zero.\<close>

definition py_int :: "real \<Rightarrow> int" where
  "py_int v = (if 0 \<le> v then \<lfloor>v\<rfloor> else \<lceil>v\<rceil>)"

subsection \<open>Floats with infinities and NaN\<close>

datatype fval = Fin real | PInf | NInf | NaN

text \<open>
  The least magnitudes that round to an infinity in float32 and in float64 (round to
  nearest, ties to even): the largest finite float plus half a unit in the last place.
\<close>

definition f32_limit :: real where
  "f32_limit = 2 ^ 128 - 2 ^ 103"

definition f64_limit :: real where
  "f64_limit = 2 ^ 1024 - 2 ^ 970"

definition overflow_at :: "real \<Rightarrow> fval \<Rightarrow> fval" where
  "overflow_at bound x =
     (case x of
        Fin r \<Rightarrow> if bound \<le> r then PInf else if r \<le> - bound then NInf else Fin r
      | _ \<Rightarrow> x)"

text \<open>Storing into float32 (also \<open>astype(np.float32)\<close>), and into float64.\<close>

definition f32 :: "fval \<Rightarrow> fval" where
  "f32 x = overflow_at f32_limit x"

definition f64 :: "fval \<Rightarrow> fval" where
  "f64 x = overflow_at f64_limit x"

text \<open>IEEE addition and multiplication, before rounding.\<close>

fun fadd :: "fval \<Rightarrow> fval \<Rightarrow> fval" where
  "fadd NaN _ = NaN"
| "fadd _ NaN = NaN"
| "fadd (Fin a) (Fin b) = Fin (a + b)"
| "fadd PInf NInf = NaN"
| "fadd NInf PInf = NaN"
| "fadd PInf _ = PInf"
| "fadd _ PInf = PInf"
| "fadd NInf _ = NInf"
| "fadd _ NInf = NInf"

fun fneg :: "fval \<Rightarrow> fval" where
  "fneg (Fin a) = Fin (- a)"
| "fneg PInf = NInf"
| "fneg NInf = PInf"
| "fneg NaN = NaN"

text \<open>An infinity of the sign of \<open>s\<close>, for a nonzero \<open>s\<close>.\<close>

definition inf_of_sign :: "real \<Rightarrow> fval" where
  "inf_of_sign s = (if 0 < s then PInf else NInf)"

fun fmul :: "fval \<Rightarrow> fval \<Rightarrow> fval" where
  "fmul NaN _ = NaN"
| "fmul _ NaN = NaN"
| "fmul (Fin a) (Fin b) = Fin (a * b)"
| "fmul PInf (Fin b) = (if b = 0 then NaN else inf_of_sign b)"
| "fmul NInf (Fin b) = (if b = 0 then NaN else inf_of_sign (- b))"
| "fmul (Fin a) PInf = (if a = 0 then NaN else inf_of_sign a)"
| "fmul (Fin a) NInf = (if a = 0 then NaN else inf_of_sign (- a))"
| "fmul PInf PInf = PInf"
| "fmul NInf NInf = PInf"
| "fmul PInf NInf = NInf"
| "fmul NInf PInf = NInf"

text \<open>
  Operations on float32 arrays and float32 scalars: the result is stored in float32. A
  Python float operand is converted to float32 first (the promotion of Python scalars in
  NumPy 2, NEP 50); that conversion is written \<open>f32\<close> at the operand. The value-based
  promotion of NumPy 1, under which a Python float outside the float32 range makes the
  result float64, is not modelled.
\<close>

definition add32 :: "fval \<Rightarrow> fval \<Rightarrow> fval" where
  "add32 a b = f32 (fadd a b)"

definition sub32 :: "fval \<Rightarrow> fval \<Rightarrow> fval" where
  "sub32 a b = f32 (fadd a (fneg b))"

definition mul32 :: "fval \<Rightarrow> fval \<Rightarrow> fval" where
  "mul32 a b = f32 (fmul a b)"

text \<open>Division of a float32 value by a nonzero finite constant.\<close>

fun div32 :: "fval \<Rightarrow> real \<Rightarrow> fval" where
  "div32 (Fin a) c = f32 (Fin (a / c))"
| "div32 PInf c = inf_of_sign c"
| "div32 NInf c = inf_of_sign (- c)"
| "div32 NaN c = NaN"

text \<open>\<open>np.sin\<close>, \<open>np.arcsin\<close>, \<open>np.tanh\<close>.\<close>

fun fsin :: "fval \<Rightarrow> fval" where
  "fsin (Fin a) = Fin (sin a)"
| "fsin _ = NaN"

fun farcsin :: "fval \<Rightarrow> fval" where
  "farcsin (Fin a) = (if \<bar>a\<bar> \<le> 1 then Fin (arcsin a) else NaN)"
| "farcsin _ = NaN"

fun ftanh :: "fval \<Rightarrow> fval" where
  "ftanh (Fin a) = Fin (tanh a)"
| "ftanh PInf = Fin 1"
| "ftanh NInf = Fin (- 1)"
| "ftanh NaN = NaN"

text \<open>\<open>x % y\<close> for a positive finite \<open>y\<close>, and \<open>np.clip\<close> with finite bounds.\<close>

fun fmod_f :: "fval \<Rightarrow> real \<Rightarrow> fval" where
  "fmod_f (Fin a) y = Fin (fmod a y)"
| "fmod_f _ y = NaN"

fun clip_f :: "fval \<Rightarrow> real \<Rightarrow> real \<Rightarrow> fval" where
  "clip_f (Fin a) lo hi = Fin (clip a lo hi)"
| "clip_f PInf lo hi = Fin hi"
| "clip_f NInf lo hi = Fin lo"
| "clip_f NaN lo hi = NaN"

text \<open>The sum of a float32 array, accumulated in float32 from the left.\<close>

definition sum32 :: "fval list \<Rightarrow> fval" where
  "sum32 xs = foldl add32 (Fin 0) xs"

text \<open>Membership in \<open>[-1, 1]\<close>; no comparison with NaN holds.\<close>

fun in_unit :: "fval \<Rightarrow> bool" where
  "in_unit (Fin a) = (- 1 \<le> a \<and> a \<le> 1)"
| "in_unit _ = False"

fun is_fin :: "fval \<Rightarrow> bool" where
  "is_fin (Fin a) = True"
| "is_fin _ = False"

text \<open>A phase that is finite and wrapped into \<open>[0, 2 pi)\<close>.\<close>

fun wrapped :: "fval \<Rightarrow> bool" where
  "wrapped (Fin a) = (0 \<le> a \<and> a < 2 * pi)"
| "wrapped _ = False"

subsection \<open>Arrays of zeros and ones\<close>

definition zeros :: "nat \<Rightarrow> real list" where
  "zeros n = replicate n 0"

definition ones :: "nat \<Rightarrow> real list" where
  "ones n = replicate n 1"

text \<open>\<open>np.dot\<close> of two vectors, and \<open>np.linalg.norm\<close>.\<close>

definition dot :: "real list \<Rightarrow> real list \<Rightarrow> real" where
  "dot xs ys = sum_list (map2 (*) xs ys)"

definition linalg_norm :: "real list \<Rightarrow> real" where
  "linalg_norm xs = sqrt (dot xs xs)"

subsection \<open>The E8 root system\<close>

definition is2 :: real where
  "is2 = 1 / sqrt 2"

text \<open>The body of the innermost Family-A loop: a zero vector with entries \<open>i\<close> and \<open>j\<close> set.\<close>

definition family_a_vec :: "nat \<Rightarrow> nat \<Rightarrow> real \<Rightarrow> real \<Rightarrow> real list" where
  "family_a_vec i j s0 s1 = ((zeros 8)[i := s0 * is2])[j := s1 * is2]"

text \<open>The four nested loops of Family A, in the order in which they append.\<close>

definition family_a :: "real list list" where
  "family_a =
     concat (map (\<lambda>i.
       concat (map (\<lambda>j.
         concat (map (\<lambda>s0.
           map (\<lambda>s1. family_a_vec i j s0 s1) [- 1, 1]) [- 1, 1])) [i + 1..<8])) [0..<8])"

text \<open>
  The loop over the bits \<open>b\<close> of a mask: it fills \<open>vals\<close> and counts the minus signs.
  \<open>np.empty\<close> leaves the vector uninitialised; every entry is overwritten by the loop.
\<close>

definition mask_bit :: "nat \<Rightarrow> nat \<Rightarrow> nat" where
  "mask_bit msk b = (msk div 2 ^ b) mod 2"

definition mask_step :: "nat \<Rightarrow> nat \<Rightarrow> real list \<times> nat \<Rightarrow> real list \<times> nat" where
  "mask_step msk b st =
     (case st of (vals, n_minus) \<Rightarrow>
        if mask_bit msk b \<noteq> 0 then (vals[b := - (1 / 2)], n_minus + 1)
        else (vals[b := 1 / 2], n_minus))"

definition mask_vals :: "nat \<Rightarrow> real list \<times> nat" where
  "mask_vals msk = fold (mask_step msk) [0..<8] (zeros 8, 0)"

text \<open>The Family-B loop over the masks, with its \<open>break\<close> once 240 roots are collected.\<close>

fun family_b_loop :: "nat list \<Rightarrow> real list list \<Rightarrow> real list list" where
  "family_b_loop [] roots = roots"
| "family_b_loop (msk # msks) roots =
     (case mask_vals msk of (vals, n_minus) \<Rightarrow>
        if n_minus mod 2 = 0 then
          (let n = linalg_norm vals;
               vals' = (if 0 < n then map (\<lambda>x. x / n) vals else vals);
               roots' = roots @ [vals']
           in if length roots' = 240 then roots' else family_b_loop msks roots')
        else family_b_loop msks roots)"

text \<open>\<open>np.stack\<close> followed by the assertion on the shape.\<close>

definition generate_e8_roots :: "error + real list list" where
  "generate_e8_roots =
     (let roots = family_b_loop [0..<256] family_a
      in if length roots = 240 \<and> list_all (\<lambda>v. length v = 8) roots
         then Inr roots else Inl AssertionError)"

subsection \<open>Qutrit state, torus, macros\<close>

text \<open>\<open>QutritState.soft_project\<close> acting on the vector \<open>r\<close>.\<close>

definition soft_project :: "real \<Rightarrow> real list \<Rightarrow> real list" where
  "soft_project r_max r =
     (let n2 = dot r r
      in if n2 \<le> r_max * r_max then r
         else (let n = sqrt n2;
                   s = r_max * tanh (n / r_max) / (n + 1 / 10 ^ 12)
               in map (\<lambda>x. x * s) r))"

record E8Torus =
  theta :: "real list"
  omega :: "real list"

definition advance :: "real \<Rightarrow> E8Torus \<Rightarrow> E8Torus" where
  "advance dt t =
     t\<lparr>theta := map2 (\<lambda>th om. fmod (th + om * dt) (2 * pi)) (theta t) (omega t)\<rparr>"

definition phases :: "real list list \<Rightarrow> E8Torus \<Rightarrow> real list" where
  "phases roots t = map (\<lambda>root. dot root (theta t)) roots"

record Macros =
  CosmicDepth :: int
  PhiDrift :: real
  CoxeterPhase :: real
  EntropyBloom :: real
  TernaryBias :: real
  PhaseGain :: real
  AmpGain :: real
  EnergyFlow :: real
  SpatialWarp :: real

definition default_macros :: Macros where
  "default_macros =
     \<lparr>CosmicDepth = 5, PhiDrift = 2 / 100, CoxeterPhase = 0, EntropyBloom = 2 / 100,
      TernaryBias = 1 / 10, PhaseGain = 25 / 100, AmpGain = 2 / 10, EnergyFlow = 1,
      SpatialWarp = 0\<rparr>"

subsection \<open>The random generator\<close>

text \<open>
  NumPy's generator is not part of the repository. Its state is modelled as the stream of
  unit-interval draws it will deliver together with the number of draws consumed; the map
  from a seed to that stream is a parameter of the constructor. \<open>uniform(lo, hi, size)\<close>
  scales \<open>size\<close> consecutive draws into \<open>[lo, hi)\<close>.
\<close>

record rng_state =
  draws :: "nat \<Rightarrow> real"
  consumed :: nat

definition uniform :: "real \<Rightarrow> real \<Rightarrow> nat \<Rightarrow> rng_state \<Rightarrow> real list \<times> rng_state" where
  "uniform lo hi sz g =
     (map (\<lambda>k. lo + (hi - lo) * draws g (consumed g + k)) [0..<sz],
      g\<lparr>consumed := consumed g + sz\<rparr>)"

subsection \<open>The engine\<close>

text \<open>
  The fields of \<open>E8FractalPowerModule\<close>. The leading underscores of the private fields are
  dropped. \<open>ticks_fired\<close> is a ghost field: it counts the calls of \<open>control_step\<close> made by
  \<open>process_control_for_samples\<close> and is read by nothing.
\<close>

record engine =
  num_nodes :: nat
  sample_rate :: real
  control_rate :: real
  macros :: Macros
  rng :: rng_state
  roots :: "real list list"
  torus :: E8Torus
  qs :: "real list list"
  sparse_idx :: "nat list list"
  dphi :: "real list"
  damp :: "real list"
  morph :: "real list"
  node_phase :: "fval list"
  base_freq :: "real list"
  samples_per_control :: int
  sample_counter :: int
  ticks_fired :: nat

text \<open>\<open>_choose_sparse_roots_per_node\<close>; the integer division raises on a zero divisor.\<close>

definition choose_sparse_roots_per_node :: "nat \<Rightarrow> nat \<Rightarrow> error + nat list list" where
  "choose_sparse_roots_per_node n roots_per_node =
     (if roots_per_node = 0 then Inl ZeroDivisionError
      else (let stride = 240 div roots_per_node
            in Inr (map (\<lambda>i. (let offset = (i * 17) mod 240
                               in map (\<lambda>j. (offset + j * stride) mod 240) [0..<roots_per_node]))
                        [0..<n])))"

text \<open>The golden-ratio frequency ladder of the constructor.\<close>

definition base_freqs :: "nat \<Rightarrow> real list" where
  "base_freqs n =
     (let phi = (1 + sqrt 5) * (1 / 2);
          ratios = map (\<lambda>i. phi powr (of_int (int i - int (n div 2)))) [0..<n]
      in map (\<lambda>r. 110 * (r / Max (set ratios))) ratios)"

text \<open>
  The constructor. \<open>np.zeros\<close> rejects a negative node count, \<open>np.max\<close> an empty array, and
  the float division a zero control rate. The seed is a natural number (the generator
  rejects negative seeds); \<open>default_rng\<close> is the parameter described above.
\<close>

definition init :: "(nat \<Rightarrow> nat \<Rightarrow> real) \<Rightarrow> int \<Rightarrow> real \<Rightarrow> real \<Rightarrow> nat \<Rightarrow> error + engine" where
  "init default_rng n sr cr seed =
     (case generate_e8_roots of
        Inl err \<Rightarrow> Inl err
      | Inr rts \<Rightarrow>
          (case choose_sparse_roots_per_node (nat n) 12 of
             Inl err \<Rightarrow> Inl err
           | Inr sp \<Rightarrow>
               if n \<le> 0 then Inl ValueError
               else if cr = 0 then Inl ZeroDivisionError
               else Inr \<lparr>num_nodes = nat n, sample_rate = sr, control_rate = cr,
                         macros = default_macros,
                         rng = \<lparr>draws = default_rng seed, consumed = 0\<rparr>,
                         roots = rts,
                         torus = \<lparr>theta = zeros 8, omega = zeros 8\<rparr>,
                         qs = replicate (nat n) (zeros 8),
                         sparse_idx = sp,
                         dphi = zeros (nat n), damp = ones (nat n), morph = zeros (nat n),
                         node_phase = map Fin (zeros (nat n)),
                         base_freq = base_freqs (nat n),
                         samples_per_control = max 1 (py_round (sr / cr)),
                         sample_counter = 0,
                         ticks_fired = 0\<rparr>))"

text \<open>
  \<open>set_macros\<close>: each override whose name is a field of the macro bundle is converted to
  the type of the field's current value and stored; other names are ignored.
\<close>

fun set_macro :: "string \<times> real \<Rightarrow> Macros \<Rightarrow> Macros" where
  "set_macro (k, v) m =
     (if k = ''CosmicDepth'' then m\<lparr>CosmicDepth := py_int v\<rparr>
      else if k = ''PhiDrift'' then m\<lparr>PhiDrift := v\<rparr>
      else if k = ''CoxeterPhase'' then m\<lparr>CoxeterPhase := v\<rparr>
      else if k = ''EntropyBloom'' then m\<lparr>EntropyBloom := v\<rparr>
      else if k = ''TernaryBias'' then m\<lparr>TernaryBias := v\<rparr>
      else if k = ''PhaseGain'' then m\<lparr>PhaseGain := v\<rparr>
      else if k = ''AmpGain'' then m\<lparr>AmpGain := v\<rparr>
      else if k = ''EnergyFlow'' then m\<lparr>EnergyFlow := v\<rparr>
      else if k = ''SpatialWarp'' then m\<lparr>SpatialWarp := v\<rparr>
      else m)"

definition set_macros :: "(string \<times> real) list \<Rightarrow> engine \<Rightarrow> engine" where
  "set_macros overrides e = e\<lparr>macros := fold set_macro overrides (macros e)\<rparr>"

text \<open>\<open>_apply_torus_macros\<close>.\<close>

definition apply_torus_macros :: "engine \<Rightarrow> engine" where
  "apply_torus_macros e =
     (let drift = PhiDrift (macros e);
          base = map (\<lambda>k. drift * (6 / 10 + 1 / 10 * real k)) [0..<8];
          cp = CoxeterPhase (macros e);
          th = theta (torus e);
          th0 = th[0 := fmod (th ! 0 + 1 / 1000 * sin cp) (2 * pi)];
          th1 = th0[1 := fmod (th0 ! 1 + 1 / 1000 * cos cp) (2 * pi)];
          b = EntropyBloom (macros e)
      in if 1 / 10 ^ 6 < b then
           (case uniform (- (5 / 100)) (5 / 100) 8 (rng e) of (u, g1) \<Rightarrow>
            case uniform (- (2 / 1000)) (2 / 1000) 8 g1 of (w, g2) \<Rightarrow>
              e\<lparr>torus := \<lparr>theta = map2 (\<lambda>t x. fmod (t + b * x) (2 * pi)) th1 w,
                          omega = map2 (\<lambda>om x. om + b * x) base u\<rparr>,
                rng := g2\<rparr>)
         else e\<lparr>torus := \<lparr>theta = th1, omega = base\<rparr>\<rparr>)"

text \<open>The body of the per-node loop of \<open>control_step\<close>, for node \<open>i\<close>.\<close>

definition node_step :: "real \<Rightarrow> real list \<Rightarrow> nat \<Rightarrow> engine \<Rightarrow> engine" where
  "node_step dt ph_all i e =
     (let phase_gain = PhaseGain (macros e);
          amp_gain = AmpGain (macros e);
          bias = TernaryBias (macros e);
          lam = 8 / 10;
          idx = sparse_idx e ! i;
          ph = map (\<lambda>k. ph_all ! k) idx;
          s = sum_list (map sin ph);
          c = sum_list (map cos ph);
          norm = 1 / real (max 1 (length idx));
          th = theta (torus e);
          drive0 = 1 / 2 * sin (th ! 0) + 1 / 2 * sin (th ! 1);
          drive1 = 1 / 2 * cos (th ! 2) + 1 / 2 * cos (th ! 3);
          r = qs e ! i;
          r0 = r[0 := r ! 0 + dt * (- lam * (r ! 0) + drive0 + bias)];
          r3 = r0[3 := r0 ! 3 + dt * (- lam * (r0 ! 3) + drive1 - 1 / 2 * bias)];
          r7 = r3[7 := r3 ! 7 + dt * (- lam * (r3 ! 7) + 1 / 4 * (drive0 + drive1) - 1 / 2 * bias)];
          mag = sqrt ((r7 ! 0)\<^sup>2 + (r7 ! 3)\<^sup>2 + (r7 ! 7)\<^sup>2)
      in e\<lparr>dphi := (dphi e)[i := phase_gain * s * norm],
           damp := (damp e)[i := clip (1 + amp_gain * c * norm) 0 4],
           morph := (morph e)[i := clip (1 / 2 * mag) 0 1],
           qs := (qs e)[i := soft_project (12 / 10) r7]\<rparr>)"

definition control_step :: "engine \<Rightarrow> engine" where
  "control_step e =
     (let e1 = apply_torus_macros e;
          dt = 1 / control_rate e1;
          e2 = e1\<lparr>torus := advance dt (torus e1)\<rparr>;
          ph_all = phases (roots e2) (torus e2)
      in fold (node_step dt ph_all) [0..<num_nodes e2] e2)"

text \<open>
  The \<open>while\<close> loop of \<open>process_control_for_samples\<close>. With a non-positive
  \<open>samples_per_control\<close> the loop need not end, so the result is optional.
\<close>

partial_function (option) process_control_loop :: "int \<Rightarrow> engine \<Rightarrow> engine option" where
  "process_control_loop remaining e =
     (if 0 < remaining then
        (let step = min (samples_per_control e - sample_counter e) remaining;
             e1 = e\<lparr>sample_counter := sample_counter e + step\<rparr>;
             remaining' = remaining - step
         in if samples_per_control e1 \<le> sample_counter e1
            then process_control_loop remaining'
                   (control_step (e1\<lparr>sample_counter := 0, ticks_fired := ticks_fired e1 + 1\<rparr>))
            else process_control_loop remaining' e1)
      else Some e)"

definition process_control_for_samples :: "int \<Rightarrow> engine \<Rightarrow> engine option" where
  "process_control_for_samples num_samples e = process_control_loop num_samples e"

text \<open>\<open>_morph_wave\<close> at one phase and one morph value.\<close>

definition morph_wave :: "fval \<Rightarrow> fval \<Rightarrow> fval" where
  "morph_wave phase m =
     (let s = fsin phase;
          tri = mul32 (f32 (Fin (2 / pi))) (farcsin (fsin phase))
      in add32 (mul32 (sub32 (Fin 1) m) s) (mul32 m tri))"

text \<open>
  The per-node frequencies and phase increments of \<open>render\<close>; \<open>k\<close> is the Python
  float \<open>2 pi / sample_rate\<close>.
\<close>

definition node_freq :: "engine \<Rightarrow> fval list" where
  "node_freq e =
     map2 (\<lambda>f d. clip_f (add32 (Fin f) (div32 (Fin d) (2 * pi))) 1 20000)
       (base_freq e) (dphi e)"

definition phase_inc :: "fval \<Rightarrow> engine \<Rightarrow> fval list" where
  "phase_inc k e = map (\<lambda>f. mul32 (f32 k) f) (node_freq e)"

text \<open>
  The synthesis part of \<open>render\<close>, after the control updates: \<open>N\<close> samples with the
  base gain \<open>base_gain\<close>. The state arrays written by the control step hold finite
  values; the sample index and the sample count enter as float32 values.
\<close>

definition render_block :: "nat \<Rightarrow> fval \<Rightarrow> fval \<Rightarrow> engine \<Rightarrow> fval list \<times> fval list \<times> engine" where
  "render_block N base_gain k e =
     (let amp = map (\<lambda>d. mul32 (f32 base_gain) (Fin d)) (damp e);
          incs = phase_inc k e;
          sig = (\<lambda>n t. mul32
                    (morph_wave (add32 (node_phase e ! n) (mul32 (incs ! n) (f32 (Fin (real t)))))
                       (Fin (morph e ! n)))
                    (amp ! n));
          node_phase' = map2 (\<lambda>p inc. f32 (fmod_f (add32 p (mul32 inc (f32 (Fin (real N))))) (2 * pi)))
                          (node_phase e) incs;
          pan = add32 (Fin (1 / 2)) (mul32 (Fin (1 / 2)) (fsin (Fin (theta (torus e) ! 4))));
          left_mix = sub32 (Fin 1) pan;
          right_mix = pan;
          mix = map (\<lambda>t. sum32 (map (\<lambda>n. sig n t) [0..<num_nodes e])) [0..<N];
          gain = f32 (Fin (EnergyFlow (macros e)));
          L = map (\<lambda>x. ftanh (mul32 (mul32 left_mix x) gain)) mix;
          R = map (\<lambda>x. ftanh (mul32 (mul32 right_mix x) gain)) mix
      in (L, R, e\<lparr>node_phase := node_phase'\<rparr>))"

text \<open>
  \<open>render\<close>. \<open>None\<close>: the control loop does not end. \<open>Inl\<close>: an exception, from
  \<open>np.zeros\<close> on a negative sample count or from the division by a zero sample rate,
  both raised before any state is touched. Otherwise the two channels and the new state.
\<close>

definition render :: "int \<Rightarrow> fval \<Rightarrow> engine \<Rightarrow> (error + fval list \<times> fval list \<times> engine) option" where
  "render num_samples base_gain e =
     (if num_samples < 0 then Some (Inl ValueError)
      else if sample_rate e = 0 then Some (Inl ZeroDivisionError)
      else (let k = f64 (Fin (2 * pi / sample_rate e))
            in case process_control_for_samples num_samples e of
                 None \<Rightarrow> None
               | Some e1 \<Rightarrow> Some (Inr (render_block (nat num_samples) base_gain k e1))))"

text \<open>
  A sequence of \<open>render\<close> calls, each with its sample count and base gain, collecting the
  returned channel pairs; the first exception ends the run.
\<close>

fun render_seq :: "(int \<times> fval) list \<Rightarrow> engine
    \<Rightarrow> (error + (fval list \<times> fval list) list \<times> engine) option" where
  "render_seq [] e = Some (Inr ([], e))"
| "render_seq ((n, g) # calls) e =
     (case render n g e of
        None \<Rightarrow> None
      | Some (Inl err) \<Rightarrow> Some (Inl err)
      | Some (Inr (L, R, e1)) \<Rightarrow>
          (case render_seq calls e1 of
             None \<Rightarrow> None
           | Some (Inl err) \<Rightarrow> Some (Inl err)
           | Some (Inr (outs, e2)) \<Rightarrow> Some (Inr ((L, R) # outs, e2))))"

subsection \<open>Notions used in the statements\<close>

text \<open>
  The sign pattern of an 8-bit mask: \<open>- 1/2\<close> on the axes whose bit is set, \<open>1/2\<close> on
  the others; the number of negative entries of a vector; and the masks below 256 whose
  pattern has an even number of negative entries, in ascending order.
\<close>

definition sign_pattern :: "nat \<Rightarrow> real list" where
  "sign_pattern m = map (\<lambda>b. if mask_bit m b \<noteq> 0 then - (1 / 2) else 1 / 2) [0..<8]"

definition neg_count :: "real list \<Rightarrow> nat" where
  "neg_count v = length (filter (\<lambda>x. x < 0) v)"

definition even_masks :: "nat list" where
  "even_masks = filter (\<lambda>m. even (neg_count (sign_pattern m))) [0..<256]"

text \<open>
  Family A in the spec's words: for every pair of axes \<open>i < j\<close>, listed here in
  lexicographic order, the four vectors with \<open>1 / sqrt 2\<close> or \<open>- 1 / sqrt 2\<close> at the positions \<open>i\<close> and
  \<open>j\<close> and zero elsewhere.
\<close>

definition axis_pairs :: "(nat \<times> nat) list" where
  "axis_pairs =
     [(0, 1), (0, 2), (0, 3), (0, 4), (0, 5), (0, 6), (0, 7),
      (1, 2), (1, 3), (1, 4), (1, 5), (1, 6), (1, 7),
      (2, 3), (2, 4), (2, 5), (2, 6), (2, 7),
      (3, 4), (3, 5), (3, 6), (3, 7),
      (4, 5), (4, 6), (4, 7),
      (5, 6), (5, 7),
      (6, 7)]"

definition axis_vector :: "nat \<Rightarrow> nat \<Rightarrow> real \<Rightarrow> real \<Rightarrow> real list" where
  "axis_vector i j s0 s1 =
     map (\<lambda>k. if k = i then s0 / sqrt 2 else if k = j then s1 / sqrt 2 else 0) [0..<8]"

definition quadruple :: "nat \<times> nat \<Rightarrow> real list list" where
  "quadruple p =
     [axis_vector (fst p) (snd p) (- 1) (- 1), axis_vector (fst p) (snd p) (- 1) 1,
      axis_vector (fst p) (snd p) 1 (- 1), axis_vector (fst p) (snd p) 1 1]"

text \<open>The number of nonzero components of a vector.\<close>

definition count_nonzero :: "real list \<Rightarrow> nat" where
  "count_nonzero v = length (filter (\<lambda>x. x \<noteq> 0) v)"

text \<open>
  The state after \<open>k\<close> control ticks fired by the accounting loop, the counter left at
  \<open>c\<close>.
\<close>

definition after_ticks :: "nat \<Rightarrow> int \<Rightarrow> engine \<Rightarrow> engine" where
  "after_ticks k c e =
     ((control_step ^^ k) e)\<lparr>sample_counter := c, ticks_fired := ticks_fired e + k\<rparr>"

text \<open>
  The invariant of the engine: the tick threshold is positive and the counter below it,
  the per-node arrays have one entry per node, and every sparse index list has 12
  entries.
\<close>

definition engine_inv :: "engine \<Rightarrow> bool" where
  "engine_inv e \<longleftrightarrow>
     1 \<le> samples_per_control e \<and> 0 \<le> sample_counter e \<and>
     sample_counter e < samples_per_control e \<and>
     length (qs e) = num_nodes e \<and> length (sparse_idx e) = num_nodes e \<and>
     length (dphi e) = num_nodes e \<and> length (damp e) = num_nodes e \<and>
     length (morph e) = num_nodes e \<and> length (node_phase e) = num_nodes e \<and>
     length (base_freq e) = num_nodes e \<and>
     list_all (\<lambda>idx. length idx = 12) (sparse_idx e)"

text \<open>
  The oscillator phases as \<open>render\<close> leaves them: each one wrapped into \<open>[0, 2 pi)\<close>, or
  NaN.
\<close>

definition phases_ok :: "engine \<Rightarrow> bool" where
  "phases_ok e \<longleftrightarrow> list_all (\<lambda>p. wrapped p \<or> p = NaN) (node_phase e)"

text \<open>The engines a caller can obtain: constructed, then driven through the public methods.\<close>

inductive reachable :: "engine \<Rightarrow> bool" where
  reach_init: "init default_rng n sr cr seed = Inr e \<Longrightarrow> reachable e"
| reach_set_macros: "reachable e \<Longrightarrow> reachable (set_macros overrides e)"
| reach_control_step: "reachable e \<Longrightarrow> reachable (control_step e)"
| reach_process: "reachable e \<Longrightarrow> process_control_for_samples n e = Some e' \<Longrightarrow> reachable e'"
| reach_render: "reachable e \<Longrightarrow> render n g e = Some (Inr (L, R, e')) \<Longrightarrow> reachable e'"

text \<open>An engine with other values of the two macros \<open>CosmicDepth\<close> and \<open>SpatialWarp\<close>.\<close>

definition with_inert :: "int \<Rightarrow> real \<Rightarrow> engine \<Rightarrow> engine" where
  "with_inert d w e = e\<lparr>macros := (macros e)\<lparr>CosmicDepth := d, SpatialWarp := w\<rparr>\<rparr>"

text \<open>A generator whose draws are all 0, for concrete engines.\<close>

definition zero_stream :: "nat \<Rightarrow> nat \<Rightarrow> real" where
  "zero_stream seed k = 0"

text \<open>The first coordinate of the projection of a vector on the first axis.\<close>

definition project_axis :: "real \<Rightarrow> real \<Rightarrow> real" where
  "project_axis r_max x = soft_project r_max [x, 0, 0, 0, 0, 0, 0, 0] ! 0"

section \<open>Lists of indices\<close>

lemma upt8: "[0..<8] = [0, 1, 2, 3, 4, 5, 6, 7]"
  by (simp add: upt_conv_Cons)

lemma upt12: "[0..<12] = [0, 1, 2, 3, 4, 5, 6, 7, 8, 9, 10, 11]"
  by (simp add: upt_conv_Cons)

lemma upt8_Suc: "[0..<8] = 0 # map Suc [0..<7]"
  by (simp add: upt_conv_Cons map_Suc_upt del: upt_Suc)

lemma idx_cases8:
  "i < (8::nat) \<Longrightarrow> i = 0 \<or> i = 1 \<or> i = 2 \<or> i = 3 \<or> i = 4 \<or> i = 5 \<or> i = 6 \<or> i = 7"
  by arith

section \<open>The root system\<close>

subsection \<open>The bit loop\<close>

lemma mask_fold:
  "n \<le> length vals \<Longrightarrow>
   fold (mask_step m) [0..<n] (vals, c) =
     (map (\<lambda>b. if mask_bit m b \<noteq> 0 then - (1 / 2) else 1 / 2) [0..<n] @ drop n vals,
      c + length (filter (\<lambda>b. mask_bit m b \<noteq> 0) [0..<n]))"
proof (induction n)
  case 0
  then show ?case by simp
next
  case (Suc n)
  then have n: "n < length vals" by simp
  have d: "drop n vals = vals ! n # drop (Suc n) vals"
    using n by (simp add: Cons_nth_drop_Suc)
  show ?case
    using Suc.IH n
    by (simp add: mask_step_def d list_update_append)
qed

lemma neg_count_sign:
  "neg_count (sign_pattern m) = length (filter (\<lambda>b. mask_bit m b \<noteq> 0) [0..<8])"
  unfolding neg_count_def sign_pattern_def filter_map
  by (simp add: comp_def del: upt_Suc cong: conj_cong)

lemma mask_vals_eq: "mask_vals m = (sign_pattern m, neg_count (sign_pattern m))"
proof -
  have "mask_vals m =
          (map (\<lambda>b. if mask_bit m b \<noteq> 0 then - (1 / 2) else 1 / 2) [0..<8],
           length (filter (\<lambda>b. mask_bit m b \<noteq> 0) [0..<8]))"
    unfolding mask_vals_def by (subst mask_fold) (simp_all add: zeros_def)
  then show ?thesis
    by (simp only: neg_count_sign) (simp only: sign_pattern_def)
qed

lemma length_sign_pattern: "length (sign_pattern m) = 8"
  by (simp add: sign_pattern_def)

lemma abs_sign_pattern: "x \<in> set (sign_pattern m) \<Longrightarrow> \<bar>x\<bar> = 1 / 2"
  by (auto simp: sign_pattern_def)

lemma dot_map_self: "dot (map f xs) (map f xs) = sum_list (map (\<lambda>x. f x * f x) xs)"
  by (induction xs) (simp_all add: dot_def)

lemma dot_sign: "dot (sign_pattern m) (sign_pattern m) = 2"
  unfolding sign_pattern_def dot_map_self by (simp add: upt8)

lemma norm_sign: "linalg_norm (sign_pattern m) = sqrt 2"
  by (simp add: linalg_norm_def dot_sign)

lemma norm_scaled_sign: "linalg_norm (map (\<lambda>x. x / sqrt 2) (sign_pattern m)) = 1"
proof -
  have "dot (map (\<lambda>x. x / sqrt 2) (sign_pattern m)) (map (\<lambda>x. x / sqrt 2) (sign_pattern m))
          = sum_list (map (\<lambda>x. 1 / 8) [0..<8])"
    unfolding sign_pattern_def map_map dot_map_self
    by (rule arg_cong[where f = sum_list], rule map_cong) (simp_all add: field_simps)
  then show ?thesis by (simp add: linalg_norm_def upt8)
qed

subsection \<open>The mask loop and its break\<close>

lemma family_b_loop_eq:
  "length rs + length (filter (\<lambda>m. even (neg_count (sign_pattern m))) ms) \<le> 240 \<Longrightarrow>
   family_b_loop ms rs =
     rs @ map (\<lambda>m. map (\<lambda>x. x / sqrt 2) (sign_pattern m))
            (filter (\<lambda>m. even (neg_count (sign_pattern m))) ms)"
proof (induction ms arbitrary: rs)
  case Nil
  then show ?case by simp
next
  case (Cons m ms)
  let ?bv = "map (\<lambda>x. x / sqrt 2) (sign_pattern m)"
  show ?case
  proof (cases "even (neg_count (sign_pattern m))")
    case False
    then show ?thesis using Cons by (simp add: mask_vals_eq even_iff_mod_2_eq_zero)
  next
    case True
    show ?thesis
    proof (cases "Suc (length rs) = 240")
      case full: True
      then have "filter (\<lambda>m. even (neg_count (sign_pattern m))) ms = []"
        using Cons.prems True by simp
      then show ?thesis using True full
        by (simp add: mask_vals_eq even_iff_mod_2_eq_zero norm_sign Let_def)
    next
      case room: False
      have "family_b_loop ms (rs @ [?bv]) =
              (rs @ [?bv]) @ map (\<lambda>m. map (\<lambda>x. x / sqrt 2) (sign_pattern m))
                                (filter (\<lambda>m. even (neg_count (sign_pattern m))) ms)"
        using Cons.prems True by (intro Cons.IH) simp
      then show ?thesis using True room
        by (simp add: mask_vals_eq even_iff_mod_2_eq_zero norm_sign Let_def)
    qed
  qed
qed

subsection \<open>Counting the even masks\<close>

lemma mask_bit_double:
  "mask_bit (2 * n) (Suc b) = mask_bit n b"
  "mask_bit (Suc (2 * n)) (Suc b) = mask_bit n b"
  "mask_bit (2 * n) 0 = 0"
  "mask_bit (Suc (2 * n)) 0 = 1"
  by (simp_all add: mask_bit_def div_mult2_eq)

lemma popcount_odd:
  "length (filter (\<lambda>b. mask_bit (Suc (2 * n)) b \<noteq> 0) [0..<8]) =
   Suc (length (filter (\<lambda>b. mask_bit (2 * n) b \<noteq> 0) [0..<8]))"
  unfolding upt8_Suc by (simp add: filter_map comp_def mask_bit_double del: upt_Suc)

lemma count_even_pairs:
  "length (filter (\<lambda>m. even (neg_count (sign_pattern m))) [0..<2 * n]) = n"
proof (induction n)
  case 0
  then show ?case by simp
next
  case (Suc n)
  have "[0..<2 * Suc n] = [0..<2 * n] @ [2 * n, 2 * n + 1]"
    by (simp add: upt_conv_Cons)
  then show ?case
    using Suc popcount_odd[of n] by (simp add: neg_count_sign)
qed

lemma length_even_masks: "length even_masks = 128"
  using count_even_pairs[of 128] by (simp add: even_masks_def)

lemma even_masks_even: "m \<in> set even_masks \<Longrightarrow> even (neg_count (sign_pattern m)) \<and> m < 256"
  by (simp add: even_masks_def)

lemma even_masks_ascending: "sorted even_masks \<and> distinct even_masks"
  by (simp add: even_masks_def sorted_wrt_filter)

subsection \<open>Family A\<close>

lemma length_family_a: "length family_a = 112"
  by (simp add: family_a_def upt_conv_Cons)

lemma family_a_all:
  assumes "\<And>i j s0 s1. i < j \<Longrightarrow> j < 8 \<Longrightarrow> \<bar>s0\<bar> = 1 \<Longrightarrow> \<bar>s1\<bar> = 1 \<Longrightarrow> P (family_a_vec i j s0 s1)"
  shows "\<forall>v\<in>set family_a. P v"
  unfolding family_a_def using assms by (auto simp del: upt_Suc)

lemma length_family_a_vec: "length (family_a_vec i j s0 s1) = 8"
  by (simp add: family_a_vec_def zeros_def)

lemma nth_family_a_vec:
  "i < 8 \<Longrightarrow> j < 8 \<Longrightarrow> k < 8 \<Longrightarrow>
   family_a_vec i j s0 s1 ! k = (if k = j then s1 * is2 else if k = i then s0 * is2 else 0)"
  by (simp add: family_a_vec_def zeros_def nth_list_update)

lemma is2_pos: "0 < is2"
  by (simp add: is2_def)

lemma count_nonzero_family_a_vec:
  assumes "i < j" "j < 8" "\<bar>s0\<bar> = 1" "\<bar>s1\<bar> = 1"
  shows "count_nonzero (family_a_vec i j s0 s1) = 2"
proof -
  let ?v = "family_a_vec i j s0 s1"
  have i: "i < 8" using assms by simp
  have s: "s0 \<noteq> 0" "s1 \<noteq> 0" using assms by auto
  have "{k. k < length ?v \<and> ?v ! k \<noteq> 0} = {i, j}"
  proof (intro set_eqI iffI)
    fix k assume "k \<in> {k. k < length ?v \<and> ?v ! k \<noteq> 0}"
    then have k: "k < 8" "?v ! k \<noteq> 0" by (simp_all add: length_family_a_vec)
    then show "k \<in> {i, j}"
      using nth_family_a_vec[OF i assms(2) k(1), of s0 s1] by (simp split: if_splits)
  next
    fix k assume "k \<in> {i, j}"
    then have "k = i \<or> k = j" by simp
    then show "k \<in> {k. k < length ?v \<and> ?v ! k \<noteq> 0}"
      using i assms(1,2) s is2_pos
      by (auto simp: length_family_a_vec nth_family_a_vec)
  qed
  moreover have "card {i, j} = 2" using assms by simp
  ultimately show ?thesis
    by (simp add: count_nonzero_def length_filter_conv_card)
qed

lemma abs_family_a_vec:
  assumes "i < j" "j < 8" "\<bar>s0\<bar> = 1" "\<bar>s1\<bar> = 1" "x \<in> set (family_a_vec i j s0 s1)" "x \<noteq> 0"
  shows "\<bar>x\<bar> = 1 / sqrt 2"
proof -
  have i: "i < 8" using assms by simp
  obtain k where k: "k < 8" "x = family_a_vec i j s0 s1 ! k"
    using assms(5) by (auto simp: in_set_conv_nth length_family_a_vec)
  have "x = s1 * is2 \<or> x = s0 * is2"
    using assms(6) k nth_family_a_vec[OF i assms(2) k(1), of s0 s1] by (simp split: if_splits)
  then show ?thesis
    using assms(3,4) by (auto simp: abs_mult is2_def)
qed

subsection \<open>The generated roots\<close>

lemma generate_e8_roots_eq:
  "generate_e8_roots =
     Inr (family_a @ map (\<lambda>m. map (\<lambda>x. x / sqrt 2) (sign_pattern m)) even_masks)"
proof -
  have loop: "family_b_loop [0..<256] family_a =
          family_a @ map (\<lambda>m. map (\<lambda>x. x / sqrt 2) (sign_pattern m)) even_masks"
    unfolding even_masks_def
    using length_even_masks
    by (intro family_b_loop_eq) (simp add: length_family_a even_masks_def)
  have a: "list_all (\<lambda>v. length v = 8) family_a"
    unfolding list_all_iff by (rule family_a_all) (rule length_family_a_vec)
  show ?thesis
    unfolding generate_e8_roots_def loop Let_def
    using a by (auto simp: length_family_a length_even_masks list_all_iff length_sign_pattern)
qed


subsection \<open>The sparse index sets\<close>

lemma sparse_formula:
  "choose_sparse_roots_per_node n 12 =
     Inr (map (\<lambda>i. map (\<lambda>j. (17 * i + 20 * j) mod 240) [0..<12]) [0..<n])"
  by (simp add: choose_sparse_roots_per_node_def Let_def mod_add_left_eq mult.commute)

lemma sparse8_val:
  "map (\<lambda>i. map (\<lambda>j. (17 * i + 20 * j) mod 240) [0..<12]) [0..<8] =
  [[0, 20, 40, 60, 80, 100, 120, 140, 160, 180, 200, 220],
   [17, 37, 57, 77, 97, 117, 137, 157, 177, 197, 217, 237],
   [34, 54, 74, 94, 114, 134, 154, 174, 194, 214, 234, 14],
   [51, 71, 91, 111, 131, 151, 171, 191, 211, 231, 11, 31],
   [68, 88, 108, 128, 148, 168, 188, 208, 228, 8, 28, 48],
   [85, 105, 125, 145, 165, 185, 205, 225, 5, 25, 45, 65],
   [102, 122, 142, 162, 182, 202, 222, 2, 22, 42, 62, 82],
   [119, 139, 159, 179, 199, 219, 239, 19, 39, 59, 79, 99 :: nat]]"
  by (simp add: upt12 upt8)

lemma sparse8_distinct:
  "i < 8 \<Longrightarrow>
   distinct (map (\<lambda>i. map (\<lambda>j. (17 * i + 20 * j) mod 240) [0..<12]) [0..<8] ! i)"
  by (drule idx_cases8, unfold sparse8_val, elim disjE; simp)

lemma sparse8_residue:
  "i < 8 \<Longrightarrow> x \<in> set (map (\<lambda>i. map (\<lambda>j. (17 * i + 20 * j) mod 240) [0..<12]) [0..<8] ! i)
   \<Longrightarrow> x mod 20 = (17 * i) mod 20"
  by (drule idx_cases8, unfold sparse8_val, elim disjE; auto)

lemma residues_differ:
  "i < 8 \<Longrightarrow> k < 8 \<Longrightarrow> i \<noteq> k \<Longrightarrow> (17 * i) mod 20 \<noteq> (17 * k) mod (20::nat)"
  by (drule idx_cases8, drule idx_cases8, elim disjE; simp)

lemma sparse8_disjoint:
  assumes "i < 8" "k < 8" "i \<noteq> k"
  shows "set (map (\<lambda>i. map (\<lambda>j. (17 * i + 20 * j) mod 240) [0..<12]) [0..<8] ! i) \<inter>
         set (map (\<lambda>i. map (\<lambda>j. (17 * i + 20 * j) mod 240) [0..<12]) [0..<8] ! k) = {}"
proof -
  have "\<And>x. x \<in> set (map (\<lambda>i. map (\<lambda>j. (17 * i + 20 * j) mod 240) [0..<12]) [0..<8] ! i)
          \<Longrightarrow> x \<in> set (map (\<lambda>i. map (\<lambda>j. (17 * i + 20 * j) mod 240) [0..<12]) [0..<8] ! k)
          \<Longrightarrow> False"
    using sparse8_residue[OF assms(1)] sparse8_residue[OF assms(2)] residues_differ[OF assms]
    by metis
  then show ?thesis by blast
qed

subsection \<open>Family A as quadruples of the axis pairs\<close>

lemma axis_pairs_complete: "set axis_pairs = {(i, j). i < j \<and> j < 8} \<and> distinct axis_pairs \<and> length axis_pairs = 28"
proof -
  have "axis_pairs = concat (map (\<lambda>i. map (\<lambda>j. (i, j)) [i + 1..<8]) [0..<8])"
    by (simp add: axis_pairs_def upt_conv_Cons)
  then have "set axis_pairs = set (concat (map (\<lambda>i. map (\<lambda>j. (i, j)) [i + 1..<8]) [0..<8]))"
    by (rule arg_cong)
  also have "\<dots> = {(i, j). i < j \<and> j < 8}" by (auto simp: image_iff)
  finally have "set axis_pairs = {(i, j). i < j \<and> j < 8}" .
  moreover have "distinct axis_pairs" by (simp add: axis_pairs_def)
  moreover have "length axis_pairs = 28" by (simp add: axis_pairs_def)
  ultimately show ?thesis by blast
qed

lemma family_a_vec_axis:
  "i < j \<Longrightarrow> j < 8 \<Longrightarrow> family_a_vec i j s0 s1 = axis_vector i j s0 s1"
  by (rule nth_equalityI)
     (auto simp: length_family_a_vec axis_vector_def nth_family_a_vec is2_def simp del: upt_Suc)

lemma family_a_quadruples: "family_a = concat (map quadruple axis_pairs)"
proof -
  have "family_a = concat (map (\<lambda>p. [family_a_vec (fst p) (snd p) (- 1) (- 1),
            family_a_vec (fst p) (snd p) (- 1) 1, family_a_vec (fst p) (snd p) 1 (- 1),
            family_a_vec (fst p) (snd p) 1 1]) axis_pairs)"
    by (simp add: family_a_def axis_pairs_def upt_conv_Cons eval_nat_numeral)
  also have "\<dots> = concat (map quadruple axis_pairs)"
  proof (rule arg_cong[where f = concat], rule map_cong[OF refl])
    fix p assume "p \<in> set axis_pairs"
    then have "fst p < snd p \<and> snd p < 8" using axis_pairs_complete by auto
    then show "[family_a_vec (fst p) (snd p) (- 1) (- 1),
            family_a_vec (fst p) (snd p) (- 1) 1, family_a_vec (fst p) (snd p) 1 (- 1),
            family_a_vec (fst p) (snd p) 1 1] = quadruple p"
      by (simp add: quadruple_def family_a_vec_axis)
  qed
  finally show ?thesis .
qed

section \<open>Claims about the root system and the sparse coupling\<close>

text \<open>
  Claim C6. Root generation returns exactly 240 vectors of dimension 8. The first 112 are
  Family A: the quadruples of the 28 axis pairs \<open>i < j\<close>, one after the other in
  lexicographic order of the pairs, the four vectors of a pair carrying the signs
  \<open>(-,-)\<close>, \<open>(-,+)\<close>, \<open>(+,-)\<close>, \<open>(+,+)\<close> at \<open>i\<close> and \<open>j\<close>; each has exactly two nonzero
  components, each of magnitude \<open>1 / sqrt 2\<close>. The remaining 128 are Family B: the
  \<open>k\<close>-th of them is the normalised sign pattern (entries of magnitude \<open>1/2\<close>, divided
  by the pattern's norm \<open>sqrt 2\<close>) of the \<open>k\<close>-th mask with an even number of negative
  signs, the masks taken in ascending order, and it has unit norm.
\<close>

theorem generate_e8_roots_families:
  "\<exists>rts. generate_e8_roots = Inr rts \<and> length rts = 240 \<and> (\<forall>v\<in>set rts. length v = 8) \<and>
     set axis_pairs = {(i, j). i < j \<and> j < 8} \<and> distinct axis_pairs \<and>
     take 112 rts = concat (map quadruple axis_pairs) \<and>
     (\<forall>k<112. count_nonzero (rts ! k) = 2 \<and>
               (\<forall>x\<in>set (rts ! k). x \<noteq> 0 \<longrightarrow> \<bar>x\<bar> = 1 / sqrt 2)) \<and>
     length even_masks = 128 \<and> sorted even_masks \<and> distinct even_masks \<and>
     (\<forall>k<128. rts ! (112 + k) = map (\<lambda>x. x / sqrt 2) (sign_pattern (even_masks ! k)) \<and>
               linalg_norm (rts ! (112 + k)) = 1 \<and>
               even_masks ! k < 256 \<and>
               even (neg_count (sign_pattern (even_masks ! k))) \<and>
               (\<forall>x\<in>set (sign_pattern (even_masks ! k)). \<bar>x\<bar> = 1 / 2))"
proof -
  let ?B = "map (\<lambda>m. map (\<lambda>x. x / sqrt 2) (sign_pattern m)) even_masks"
  let ?rts = "family_a @ ?B"
  have len: "length ?rts = 240"
    by (simp add: length_family_a length_even_masks)
  have dims: "\<forall>v\<in>set ?rts. length v = 8"
    using family_a_all[of "\<lambda>v. length v = 8"]
    by (auto simp: length_family_a_vec length_sign_pattern)
  have tk: "take 112 ?rts = concat (map quadruple axis_pairs)"
    by (simp add: length_family_a family_a_quadruples[symmetric])
  have famA: "\<forall>v\<in>set family_a.
      count_nonzero v = 2 \<and> (\<forall>x\<in>set v. x \<noteq> 0 \<longrightarrow> \<bar>x\<bar> = 1 / sqrt 2)"
  proof (rule family_a_all, intro conjI ballI impI)
    fix i j :: nat and s0 s1 :: real
    assume h: "i < j" "j < 8" "\<bar>s0\<bar> = 1" "\<bar>s1\<bar> = 1"
    show "count_nonzero (family_a_vec i j s0 s1) = 2"
      using h by (rule count_nonzero_family_a_vec)
    fix x assume "x \<in> set (family_a_vec i j s0 s1)" "x \<noteq> 0"
    then show "\<bar>x\<bar> = 1 / sqrt 2"
      using h abs_family_a_vec by blast
  qed
  have A: "\<forall>k<112. count_nonzero (?rts ! k) = 2 \<and>
               (\<forall>x\<in>set (?rts ! k). x \<noteq> 0 \<longrightarrow> \<bar>x\<bar> = 1 / sqrt 2)"
  proof (intro allI impI)
    fix k :: nat assume k: "k < 112"
    then have "?rts ! k = family_a ! k" "family_a ! k \<in> set family_a"
      by (simp_all add: nth_append length_family_a)
    then show "count_nonzero (?rts ! k) = 2 \<and>
               (\<forall>x\<in>set (?rts ! k). x \<noteq> 0 \<longrightarrow> \<bar>x\<bar> = 1 / sqrt 2)"
      using famA by simp
  qed
  have B: "\<forall>k<128. ?rts ! (112 + k) = map (\<lambda>x. x / sqrt 2) (sign_pattern (even_masks ! k)) \<and>
               linalg_norm (?rts ! (112 + k)) = 1 \<and>
               even_masks ! k < 256 \<and>
               even (neg_count (sign_pattern (even_masks ! k))) \<and>
               (\<forall>x\<in>set (sign_pattern (even_masks ! k)). \<bar>x\<bar> = 1 / 2)"
  proof (intro allI impI)
    fix k :: nat assume k: "k < 128"
    then have nth: "?rts ! (112 + k) = map (\<lambda>x. x / sqrt 2) (sign_pattern (even_masks ! k))"
      using length_family_a[symmetric] by (simp add: nth_append length_even_masks)
    have mem: "even_masks ! k \<in> set even_masks"
      using k by (simp add: length_even_masks)
    show "?rts ! (112 + k) = map (\<lambda>x. x / sqrt 2) (sign_pattern (even_masks ! k)) \<and>
               linalg_norm (?rts ! (112 + k)) = 1 \<and>
               even_masks ! k < 256 \<and>
               even (neg_count (sign_pattern (even_masks ! k))) \<and>
               (\<forall>x\<in>set (sign_pattern (even_masks ! k)). \<bar>x\<bar> = 1 / 2)"
      using nth even_masks_even[OF mem] abs_sign_pattern
      by (simp add: norm_scaled_sign)
  qed
  show ?thesis
  proof (intro exI[of _ ?rts] conjI)
    show "generate_e8_roots = Inr ?rts" by (rule generate_e8_roots_eq)
    show "length ?rts = 240" by (rule len)
    show "\<forall>v\<in>set ?rts. length v = 8" by (rule dims)
    show "set axis_pairs = {(i, j). i < j \<and> j < 8}" using axis_pairs_complete by blast
    show "distinct axis_pairs" using axis_pairs_complete by blast
    show "take 112 ?rts = concat (map quadruple axis_pairs)" by (rule tk)
    show "length even_masks = 128" by (rule length_even_masks)
    show "sorted even_masks" using even_masks_ascending by blast
    show "distinct even_masks" using even_masks_ascending by blast
  qed (rule A, rule B)
qed

theorem generate_e8_roots_families_witness:
  "\<exists>rts. generate_e8_roots = Inr rts \<and> length (rts ! 0) = 8 \<and>
     count_nonzero (rts ! 0) = 2 \<and> linalg_norm (rts ! 112) = 1"
proof -
  from generate_e8_roots_families obtain rts where
    r: "generate_e8_roots = Inr rts" "length rts = 240" "\<forall>v\<in>set rts. length v = 8" and
    a: "\<forall>k<112. count_nonzero (rts ! k) = 2 \<and>
               (\<forall>x\<in>set (rts ! k). x \<noteq> 0 \<longrightarrow> \<bar>x\<bar> = 1 / sqrt 2)" and
    b: "\<forall>k<128. rts ! (112 + k) = map (\<lambda>x. x / sqrt 2) (sign_pattern (even_masks ! k)) \<and>
               linalg_norm (rts ! (112 + k)) = 1 \<and>
               even_masks ! k < 256 \<and>
               even (neg_count (sign_pattern (even_masks ! k))) \<and>
               (\<forall>x\<in>set (sign_pattern (even_masks ! k)). \<bar>x\<bar> = 1 / 2)"
    by blast
  have "rts ! 0 \<in> set rts" using r(2) by simp
  then have "length (rts ! 0) = 8" using r(3) by blast
  moreover have "count_nonzero (rts ! 0) = 2" using a[rule_format, of 0] by simp
  moreover have "linalg_norm (rts ! (112 + 0)) = 1"
    using b[rule_format, of 0, OF zero_less_numeral] by (elim conjE)
  ultimately show ?thesis using r(1) by (intro exI[of _ rts]) simp
qed

text \<open>
  Claim C9, as stated, fails: the subsets of distinct nodes do not overlap. For the
  default 8 nodes, nodes 0 and 1 share no root index.
\<close>

theorem sparse_subsets_overlap_counterexample:
  "set (projr (choose_sparse_roots_per_node 8 12) ! 0) \<inter>
   set (projr (choose_sparse_roots_per_node 8 12) ! 1) = {}"
  unfolding sparse_formula sum.sel by (rule sparse8_disjoint) simp_all

text \<open>
  Claim C9, amended. The sparse index sets are fixed at construction by the strided rule,
  without randomness: index \<open>j\<close> of node \<open>i\<close> is \<open>(17 i + 20 j) mod 240\<close> for \<open>j = 0..11\<close>,
  whatever the seed, the rates and the generator. For the default 8 nodes every node has
  12 distinct indices, and the subsets of distinct nodes are pairwise disjoint (hence
  pairwise different): they do not overlap.
\<close>

theorem sparse_roots_strided_disjoint:
  assumes "i < 8" "k < 8" "i \<noteq> k"
  shows "\<exists>sp. choose_sparse_roots_per_node 8 12 = Inr sp \<and>
           (\<forall>default_rng sr cr seed e. init default_rng 8 sr cr seed = Inr e \<longrightarrow> sparse_idx e = sp) \<and>
           length sp = 8 \<and>
           sp ! i = map (\<lambda>j. (17 * i + 20 * j) mod 240) [0..<12] \<and>
           length (sp ! i) = 12 \<and> distinct (sp ! i) \<and>
           sp ! i \<noteq> sp ! k \<and> set (sp ! i) \<inter> set (sp ! k) = {}"
proof -
  let ?sp = "map (\<lambda>i. map (\<lambda>j. (17 * i + 20 * j) mod 240) [0..<12]) [0..<8]"
  have c: "choose_sparse_roots_per_node 8 12 = Inr ?sp" by (rule sparse_formula)
  have ini: "\<forall>default_rng sr cr seed e. init default_rng 8 sr cr seed = Inr e \<longrightarrow> sparse_idx e = ?sp"
    by (auto simp: init_def sparse_formula split: sum.splits if_splits)
  have nth: "?sp ! i = map (\<lambda>j. (17 * i + 20 * j) mod 240) [0..<12]"
    using assms(1) by (simp del: upt_Suc)
  have len: "length (?sp ! i) = 12" unfolding nth by simp
  have dis: "set (?sp ! i) \<inter> set (?sp ! k) = {}" using assms by (rule sparse8_disjoint)
  have ne: "set (?sp ! i) \<noteq> {}" using len by (metis length_0_conv set_empty zero_neq_numeral)
  have neq: "?sp ! i \<noteq> ?sp ! k" using dis ne by auto
  show ?thesis
    using c ini nth len sparse8_distinct[OF assms(1)] neq dis
    by (intro exI[of _ ?sp] conjI) simp_all
qed

theorem sparse_roots_strided_disjoint_witness:
  "\<exists>sp. choose_sparse_roots_per_node 8 12 = Inr sp \<and>
     sp ! 0 = [0, 20, 40, 60, 80, 100, 120, 140, 160, 180, 200, 220] \<and>
     distinct (sp ! 0) \<and> set (sp ! 0) \<inter> set (sp ! 1) = {}"
proof -
  have h: "(0::nat) < 8" "(1::nat) < 8" "(0::nat) \<noteq> 1" by simp_all
  from sparse_roots_strided_disjoint[OF h] show ?thesis
    by (auto simp: upt12)
qed

section \<open>The soft radial projection\<close>

lemma dot_self: "dot v v = sum_list (map (\<lambda>x. x * x) v)"
  using dot_map_self[of "\<lambda>x. x" v] by simp

lemma dot_self_nonneg: "0 \<le> dot v v"
  unfolding dot_self by (rule sum_list_nonneg) auto









subsection \<open>The jump at the bound\<close>

lemma tanh_2_bound: "tanh (2::real) \<le> 40 / 41"
proof -
  have "exp (4::real) = exp 1 ^ 4"
    using exp_of_nat_mult[of 4 "1::real"] by simp
  also have "\<dots> \<le> 3 ^ 4" by (intro power_mono exp_le) simp
  finally have e4: "exp (4::real) \<le> 81" by simp
  have pos: "0 < exp (- 4 :: real)" by simp
  have "exp (- 4 :: real) = 1 / exp 4" by (simp add: exp_minus field_simps)
  then have u: "1 / 81 \<le> exp (- 4 :: real)"
    using e4 by (simp add: frac_le)
  have "tanh (2::real) = (1 - exp (- 4)) / (1 + exp (- 4))"
    using tanh_real_altdef[of 2] by simp
  also have "\<dots> \<le> 40 / 41"
    using u pos by (simp add: field_simps)
  finally show ?thesis .
qed

lemma project_axis_inside: "0 < b \<Longrightarrow> 0 \<le> x \<Longrightarrow> x \<le> b \<Longrightarrow> project_axis b x = x"
proof -
  assume h: "0 < b" "0 \<le> x" "x \<le> b"
  then have "x * x \<le> b * b" by (intro mult_mono) simp_all
  then show ?thesis by (simp add: project_axis_def soft_project_def dot_def)
qed

lemma project_axis_outside:
  assumes b: "0 < b" and x: "b < x" "x \<le> 2 * b"
  shows "project_axis b x \<le> b * (40 / 41)"
proof -
  have xpos: "0 < x" using b x by simp
  have "b * b < x * x" using b x by (intro mult_strict_mono) simp_all
  then have val: "project_axis b x = x * (b * tanh (x / b) / (x + 1 / 10 ^ 12))"
    using xpos by (simp add: project_axis_def soft_project_def dot_def Let_def)
  have "x / b \<le> 2" using b x by (simp add: field_simps)
  then have "tanh (x / b) \<le> tanh 2" by simp
  then have t: "tanh (x / b) \<le> 40 / 41" using tanh_2_bound by linarith
  have t0: "0 \<le> tanh (x / b)" using b xpos by simp
  have frac: "x / (x + 1 / 10 ^ 12) \<le> 1" using xpos by simp
  have "project_axis b x = b * tanh (x / b) * (x / (x + 1 / 10 ^ 12))"
    unfolding val by simp
  also have "\<dots> \<le> b * tanh (x / b) * 1"
    using frac b t0 by (intro mult_left_mono) simp_all
  also have "\<dots> \<le> b * (40 / 41)" using t b by simp
  finally show ?thesis .
qed

lemma project_axis_jump:
  assumes b: "0 < b"
  shows "\<not> isCont (project_axis b) b"
proof
  assume "isCont (project_axis b) b"
  then have "project_axis b \<midarrow>b\<rightarrow> project_axis b b" by (simp add: isCont_def)
  moreover have r: "0 < b / 41" using b by simp
  ultimately obtain s where s: "0 < s"
    "\<forall>x. x \<noteq> b \<and> norm (x - b) < s \<longrightarrow> norm (project_axis b x - project_axis b b) < b / 41"
    using LIM_D by blast
  define x where "x = b + min (s / 2) b"
  have x1: "b < x" "x \<le> 2 * b" "norm (x - b) < s"
    using s(1) b by (simp_all add: x_def min_def)
  then have "norm (project_axis b x - project_axis b b) < b / 41"
    using s(2) by simp
  moreover have "project_axis b b = b" using b by (simp add: project_axis_inside)
  moreover have "project_axis b x \<le> b * (40 / 41)"
    using project_axis_outside[OF b x1(1,2)] .
  ultimately show False by (simp add: abs_if split: if_splits)
qed

text \<open>
  Claim C5 fails on the code. Along the first axis, with the bound 1.2 that the control
  step uses, the projection is the identity up to 1.2 and at most \<open>1.2 * 40/41\<close>
  immediately above it: it is not continuous at the bound.
\<close>

theorem soft_project_discontinuous_at_bound:
  "project_axis (12 / 10) (12 / 10) = 12 / 10 \<and>
   project_axis (12 / 10) (13 / 10) \<le> 12 / 10 * (40 / 41) \<and>
   \<not> isCont (project_axis (12 / 10)) (12 / 10)"
proof -
  have b: "(0::real) < 12 / 10" by simp
  show ?thesis
    using project_axis_inside[OF b, of "12 / 10"] project_axis_outside[OF b, of "13 / 10"]
          project_axis_jump[OF b]
    by simp
qed

section \<open>The control step\<close>

lemma fold_node_step_shape:
  "\<exists>D A M Q. fold (node_step dt ph) ns e = e\<lparr>dphi := D, damp := A, morph := M, qs := Q\<rparr> \<and>
     length D = length (dphi e) \<and> length A = length (damp e) \<and>
     length M = length (morph e) \<and> length Q = length (qs e)"
proof (induction ns arbitrary: e)
  case Nil
  show ?case
    by (rule exI[of _ "dphi e"], rule exI[of _ "damp e"], rule exI[of _ "morph e"],
        rule exI[of _ "qs e"]) simp
next
  case (Cons i ns)
  obtain D A M Q where
    s: "fold (node_step dt ph) ns (node_step dt ph i e) =
          (node_step dt ph i e)\<lparr>dphi := D, damp := A, morph := M, qs := Q\<rparr>" and
    l: "length D = length (dphi (node_step dt ph i e))"
       "length A = length (damp (node_step dt ph i e))"
       "length M = length (morph (node_step dt ph i e))"
       "length Q = length (qs (node_step dt ph i e))"
    using Cons.IH[of "node_step dt ph i e"] by blast
  have "fold (node_step dt ph) (i # ns) e = e\<lparr>dphi := D, damp := A, morph := M, qs := Q\<rparr>"
    unfolding fold_simps s by (simp add: node_step_def Let_def)
  moreover have "length D = length (dphi e)" "length A = length (damp e)"
    "length M = length (morph e)" "length Q = length (qs e)"
    using l by (simp_all add: node_step_def Let_def)
  ultimately show ?case by blast
qed

lemma apply_torus_macros_cases:
  "apply_torus_macros e =
     (let base = map (\<lambda>k. PhiDrift (macros e) * (6 / 10 + 1 / 10 * real k)) [0..<8];
          th = theta (torus e);
          th0 = th[0 := fmod (th ! 0 + 1 / 1000 * sin (CoxeterPhase (macros e))) (2 * pi)];
          th1 = th0[1 := fmod (th0 ! 1 + 1 / 1000 * cos (CoxeterPhase (macros e))) (2 * pi)];
          b = EntropyBloom (macros e)
      in if 1 / 10 ^ 6 < b then
           e\<lparr>torus := \<lparr>theta = map2 (\<lambda>t x. fmod (t + b * x) (2 * pi)) th1
                                   (fst (uniform (- (2 / 1000)) (2 / 1000) 8
                                      (snd (uniform (- (5 / 100)) (5 / 100) 8 (rng e))))),
                        omega = map2 (\<lambda>om x. om + b * x) base
                                   (fst (uniform (- (5 / 100)) (5 / 100) 8 (rng e)))\<rparr>,
             rng := snd (uniform (- (2 / 1000)) (2 / 1000) 8
                                      (snd (uniform (- (5 / 100)) (5 / 100) 8 (rng e))))\<rparr>
         else e\<lparr>torus := \<lparr>theta = th1, omega = base\<rparr>\<rparr>)"
  unfolding apply_torus_macros_def Let_def by (simp only: case_prod_beta)

lemma apply_torus_macros_shape:
  "\<exists>T G. apply_torus_macros e = e\<lparr>rng := G, torus := T\<rparr>"
proof (cases "1 / 10 ^ 6 < EntropyBloom (macros e)")
  case True
  have r: "\<And>T G. e\<lparr>torus := T, rng := G\<rparr> = e\<lparr>rng := G, torus := T\<rparr>" by simp
  show ?thesis
    unfolding apply_torus_macros_cases Let_def if_P[OF True] r by (intro exI) (rule refl)
next
  case False
  have r: "\<And>T. e\<lparr>torus := T\<rparr> = e\<lparr>rng := rng e, torus := T\<rparr>" by simp
  show ?thesis
    unfolding apply_torus_macros_cases Let_def if_not_P[OF False] by (intro exI) (rule r)
qed

lemma control_step_shape:
  "\<exists>T G D A M Q.
     control_step e = e\<lparr>torus := T, rng := G, dphi := D, damp := A, morph := M, qs := Q\<rparr> \<and>
     length D = length (dphi e) \<and> length A = length (damp e) \<and>
     length M = length (morph e) \<and> length Q = length (qs e)"
proof -
  obtain T G where a: "apply_torus_macros e = e\<lparr>rng := G, torus := T\<rparr>"
    using apply_torus_macros_shape by blast
  let ?dt = "1 / control_rate e"
  let ?e2 = "e\<lparr>rng := G, torus := advance ?dt T\<rparr>"
  have c: "control_step e =
             fold (node_step ?dt (phases (roots e) (advance ?dt T))) [0..<num_nodes e] ?e2"
    unfolding control_step_def a Let_def by simp
  obtain D A M Q where
    f: "fold (node_step ?dt (phases (roots e) (advance ?dt T))) [0..<num_nodes e] ?e2 =
          ?e2\<lparr>dphi := D, damp := A, morph := M, qs := Q\<rparr>" and
    l: "length D = length (dphi ?e2)" "length A = length (damp ?e2)"
       "length M = length (morph ?e2)" "length Q = length (qs ?e2)"
    using fold_node_step_shape[of ?dt _ _ ?e2] by blast
  have "control_step e =
          e\<lparr>torus := advance ?dt T, rng := G, dphi := D, damp := A, morph := M, qs := Q\<rparr>"
    unfolding c f by simp
  moreover have "length D = length (dphi e)" "length A = length (damp e)"
    "length M = length (morph e)" "length Q = length (qs e)" using l by simp_all
  ultimately show ?thesis by blast
qed

lemma control_step_frame:
  "num_nodes (control_step e) = num_nodes e"
  "sample_rate (control_step e) = sample_rate e"
  "control_rate (control_step e) = control_rate e"
  "macros (control_step e) = macros e"
  "roots (control_step e) = roots e"
  "sparse_idx (control_step e) = sparse_idx e"
  "node_phase (control_step e) = node_phase e"
  "base_freq (control_step e) = base_freq e"
  "samples_per_control (control_step e) = samples_per_control e"
  "sample_counter (control_step e) = sample_counter e"
  "ticks_fired (control_step e) = ticks_fired e"
  "length (dphi (control_step e)) = length (dphi e)"
  "length (damp (control_step e)) = length (damp e)"
  "length (morph (control_step e)) = length (morph e)"
  "length (qs (control_step e)) = length (qs e)"
proof -
  obtain T G D A M Q where
    c: "control_step e = e\<lparr>torus := T, rng := G, dphi := D, damp := A, morph := M, qs := Q\<rparr>"
    and l: "length D = length (dphi e)" "length A = length (damp e)"
     "length M = length (morph e)" "length Q = length (qs e)"
    using control_step_shape[of e] by blast
  show "num_nodes (control_step e) = num_nodes e"
  "sample_rate (control_step e) = sample_rate e"
  "control_rate (control_step e) = control_rate e"
  "macros (control_step e) = macros e"
  "roots (control_step e) = roots e"
  "sparse_idx (control_step e) = sparse_idx e"
  "node_phase (control_step e) = node_phase e"
  "base_freq (control_step e) = base_freq e"
  "samples_per_control (control_step e) = samples_per_control e"
  "sample_counter (control_step e) = sample_counter e"
  "ticks_fired (control_step e) = ticks_fired e"
  "length (dphi (control_step e)) = length (dphi e)"
  "length (damp (control_step e)) = length (damp e)"
  "length (morph (control_step e)) = length (morph e)"
  "length (qs (control_step e)) = length (qs e)"
    unfolding c using l by simp_all
qed

lemma control_step_inv: "engine_inv e \<Longrightarrow> engine_inv (control_step e)"
  by (simp add: engine_inv_def control_step_frame)

lemma fold_commute:
  "(\<And>i e. g i (f e) = f (g i e)) \<Longrightarrow> fold g ns (f e) = f (fold g ns e)"
  by (induction ns arbitrary: e) simp_all

lemma control_step_commute:
  assumes a: "\<And>e. apply_torus_macros (f e) = f (apply_torus_macros e)"
    and n: "\<And>dt ph i e. node_step dt ph i (f e) = f (node_step dt ph i e)"
    and t: "\<And>e T. (f e)\<lparr>torus := T\<rparr> = f (e\<lparr>torus := T\<rparr>)"
    and r: "\<And>e. control_rate (f e) = control_rate e" "\<And>e. roots (f e) = roots e"
           "\<And>e. num_nodes (f e) = num_nodes e" "\<And>e. torus (f e) = torus e"
  shows "control_step (f e) = f (control_step e)"
proof -
  let ?e1 = "apply_torus_macros e"
  let ?dt = "1 / control_rate ?e1"
  let ?e2 = "?e1\<lparr>torus := advance ?dt (torus ?e1)\<rparr>"
  have c: "\<And>e. control_step e =
      fold (node_step (1 / control_rate (apply_torus_macros e))
         (phases (roots (apply_torus_macros e))
            (advance (1 / control_rate (apply_torus_macros e)) (torus (apply_torus_macros e)))))
        [0..<num_nodes (apply_torus_macros e)]
        ((apply_torus_macros e)\<lparr>torus := advance (1 / control_rate (apply_torus_macros e))
            (torus (apply_torus_macros e))\<rparr>)"
    unfolding control_step_def Let_def by simp
  show ?thesis
    unfolding c a r t
    by (rule fold_commute) (rule n)
qed

lemma control_step_sample_counter:
  "control_step (e\<lparr>sample_counter := c\<rparr>) = (control_step e)\<lparr>sample_counter := c\<rparr>"
  by (rule control_step_commute[where f = "\<lambda>e. e\<lparr>sample_counter := c\<rparr>"])
     (simp_all add: apply_torus_macros_cases node_step_def Let_def)

lemma control_step_ticks_fired:
  "control_step (e\<lparr>ticks_fired := c\<rparr>) = (control_step e)\<lparr>ticks_fired := c\<rparr>"
  by (rule control_step_commute[where f = "\<lambda>e. e\<lparr>ticks_fired := c\<rparr>"])
     (simp_all add: apply_torus_macros_cases node_step_def Let_def)

lemma control_step_node_phase:
  "control_step (e\<lparr>node_phase := c\<rparr>) = (control_step e)\<lparr>node_phase := c\<rparr>"
  by (rule control_step_commute[where f = "\<lambda>e. e\<lparr>node_phase := c\<rparr>"])
     (simp_all add: apply_torus_macros_cases node_step_def Let_def)

lemma control_step_with_inert:
  "control_step (with_inert d w e) = with_inert d w (control_step e)"
  by (rule control_step_commute[where f = "with_inert d w"])
     (simp_all add: apply_torus_macros_cases node_step_def Let_def with_inert_def)

subsection \<open>Iterated control steps\<close>

lemma funpow_control_step_frame:
  "samples_per_control ((control_step ^^ k) e) = samples_per_control e"
  "sample_counter ((control_step ^^ k) e) = sample_counter e"
  "ticks_fired ((control_step ^^ k) e) = ticks_fired e"
  "sample_rate ((control_step ^^ k) e) = sample_rate e"
  "node_phase ((control_step ^^ k) e) = node_phase e"
  "macros ((control_step ^^ k) e) = macros e"
  by (induction k) (simp_all add: control_step_frame)

lemma funpow_control_step_inv: "engine_inv e \<Longrightarrow> engine_inv ((control_step ^^ k) e)"
  by (induction k) (simp_all add: control_step_inv)

lemma funpow_sample_counter:
  "(control_step ^^ k) (e\<lparr>sample_counter := c\<rparr>) = ((control_step ^^ k) e)\<lparr>sample_counter := c\<rparr>"
  by (induction k) (simp_all add: control_step_sample_counter)

lemma funpow_ticks_fired:
  "(control_step ^^ k) (e\<lparr>ticks_fired := c\<rparr>) = ((control_step ^^ k) e)\<lparr>ticks_fired := c\<rparr>"
  by (induction k) (simp_all add: control_step_ticks_fired)

lemma funpow_node_phase:
  "(control_step ^^ k) (e\<lparr>node_phase := c\<rparr>) = ((control_step ^^ k) e)\<lparr>node_phase := c\<rparr>"
  by (induction k) (simp_all add: control_step_node_phase)

lemma funpow_with_inert:
  "(control_step ^^ k) (with_inert d w e) = with_inert d w ((control_step ^^ k) e)"
  by (induction k) (simp_all add: control_step_with_inert)

lemma after_ticks_0: "after_ticks 0 (sample_counter e) e = e"
  by (simp add: after_ticks_def)

lemma after_ticks_Suc:
  "after_ticks k c (control_step (e\<lparr>sample_counter := c0, ticks_fired := ticks_fired e + 1\<rparr>)) =
   after_ticks (Suc k) c e"
proof -
  have "(control_step ^^ k) (control_step (e\<lparr>sample_counter := c0, ticks_fired := ticks_fired e + 1\<rparr>))
        = ((control_step ^^ Suc k) e)\<lparr>sample_counter := c0, ticks_fired := ticks_fired e + 1\<rparr>"
    by (simp add: control_step_sample_counter control_step_ticks_fired
          funpow_sample_counter funpow_ticks_fired funpow_swap1)
  then show ?thesis
    by (simp add: after_ticks_def control_step_frame control_step_sample_counter
          control_step_ticks_fired)
qed

lemma after_ticks_after_ticks:
  "after_ticks k2 c2 (after_ticks k1 c1 e) = after_ticks (k1 + k2) c2 e"
proof -
  have "(control_step ^^ k2) (((control_step ^^ k1) e)\<lparr>sample_counter := c1, ticks_fired := ticks_fired e + k1\<rparr>)
        = ((control_step ^^ (k1 + k2)) e)\<lparr>sample_counter := c1, ticks_fired := ticks_fired e + k1\<rparr>"
    using funpow_add[of k2 k1 control_step]
    by (simp add: funpow_sample_counter funpow_ticks_fired add.commute[of k1 k2])
  then show ?thesis
    by (simp add: after_ticks_def)
qed

lemma after_ticks_node_phase:
  "after_ticks k c (e\<lparr>node_phase := p\<rparr>) = (after_ticks k c e)\<lparr>node_phase := p\<rparr>"
  by (simp add: after_ticks_def funpow_node_phase)

lemma after_ticks_with_inert:
  "after_ticks k c (with_inert d w e) = with_inert d w (after_ticks k c e)"
  by (simp add: after_ticks_def funpow_with_inert) (simp add: with_inert_def)

lemma after_ticks_frame:
  "samples_per_control (after_ticks k c e) = samples_per_control e"
  "sample_counter (after_ticks k c e) = c"
  "ticks_fired (after_ticks k c e) = ticks_fired e + k"
  "sample_rate (after_ticks k c e) = sample_rate e"
  "node_phase (after_ticks k c e) = node_phase e"
  "macros (after_ticks k c e) = macros e"
  by (simp_all add: after_ticks_def funpow_control_step_frame)

lemma after_ticks_inv:
  "engine_inv e \<Longrightarrow> 0 \<le> c \<Longrightarrow> c < samples_per_control e \<Longrightarrow> engine_inv (after_ticks k c e)"
  using funpow_control_step_inv[of e k]
  by (simp add: after_ticks_def engine_inv_def funpow_control_step_frame)

subsection \<open>The accounting loop\<close>

lemma process_control_loop_nonpos: "N \<le> 0 \<Longrightarrow> process_control_loop N e = Some e"
  by (subst process_control_loop.simps) simp

lemma process_control_loop_tick:
  assumes "0 < N" "samples_per_control e - sample_counter e \<le> N"
  shows "process_control_loop N e =
           process_control_loop (N - (samples_per_control e - sample_counter e))
             (control_step (e\<lparr>sample_counter := 0, ticks_fired := ticks_fired e + 1\<rparr>))"
  using assms by (subst process_control_loop.simps) (simp add: Let_def min_def)

lemma process_control_loop_rest:
  assumes "0 < N" "N < samples_per_control e - sample_counter e"
  shows "process_control_loop N e = Some (e\<lparr>sample_counter := sample_counter e + N\<rparr>)"
  using assms
  by (subst process_control_loop.simps)
     (simp add: Let_def min_def process_control_loop_nonpos)

lemma tick_arith:
  fixes s c N :: int
  assumes "1 \<le> s"
  shows "(c + N) div s = 1 + (N - (s - c)) div s" "(c + N) mod s = (N - (s - c)) mod s"
proof -
  have e: "c + N = (N - (s - c)) + s" by simp
  have s: "s \<noteq> 0" using assms by simp
  show "(c + N) div s = 1 + (N - (s - c)) div s"
    by (subst e, subst div_add_self2[OF s]) simp
  show "(c + N) mod s = (N - (s - c)) mod s"
    by (subst e, subst mod_add_self2) simp
qed

lemma process_control_loop_closed_aux:
  "1 \<le> samples_per_control e \<Longrightarrow> 0 \<le> sample_counter e \<Longrightarrow>
   sample_counter e < samples_per_control e \<Longrightarrow> N = int n \<Longrightarrow>
   process_control_loop N e =
     Some (after_ticks (nat ((sample_counter e + N) div samples_per_control e))
             ((sample_counter e + N) mod samples_per_control e) e)"
proof (induction n arbitrary: N e rule: less_induct)
  case (less n)
  let ?s = "samples_per_control e"
  let ?c = "sample_counter e"
  show ?case
  proof (cases "N = 0")
    case True
    then show ?thesis
      using less.prems by (simp add: process_control_loop_nonpos after_ticks_0)
  next
    case False
    then have pos: "0 < N" using less.prems by simp
    show ?thesis
    proof (cases "?s - ?c \<le> N")
      case tick: True
      let ?e' = "control_step (e\<lparr>sample_counter := 0, ticks_fired := ticks_fired e + 1\<rparr>)"
      let ?N' = "N - (?s - ?c)"
      have fr: "samples_per_control ?e' = ?s" "sample_counter ?e' = 0"
        by (simp_all add: control_step_frame)
      have n': "?N' = int (nat ?N')" "nat ?N' < n"
        using tick less.prems by simp_all
      have ih: "process_control_loop ?N' ?e' =
          Some (after_ticks (nat ((0 + ?N') div ?s)) ((0 + ?N') mod ?s) ?e')"
        using less.IH[OF n'(2), of ?e' ?N'] less.prems(1) n'(1) fr by simp
      have d: "(?c + N) div ?s = 1 + ?N' div ?s" "(?c + N) mod ?s = ?N' mod ?s"
        using less.prems(1) by (simp_all add: tick_arith)
      have nn: "0 \<le> ?N' div ?s" using tick less.prems(1) by (simp add: pos_imp_zdiv_nonneg_iff)
      have k: "nat ((?c + N) div ?s) = Suc (nat (?N' div ?s))"
        unfolding d using nn by simp
      show ?thesis
        unfolding process_control_loop_tick[OF pos tick] ih k d(2)
        by (simp only: add_0 after_ticks_Suc)
    next
      case rest: False
      then have r: "N < ?s - ?c" by simp
      have "0 \<le> ?c + N" "?c + N < ?s" using r pos less.prems by simp_all
      then have d: "(?c + N) div ?s = 0" "(?c + N) mod ?s = ?c + N"
        by simp_all
      show ?thesis
        unfolding process_control_loop_rest[OF pos r] d
        by (simp add: after_ticks_def)
    qed
  qed
qed

lemma process_control_loop_closed:
  assumes "engine_inv e" "0 \<le> N"
  shows "process_control_loop N e =
     Some (after_ticks (nat ((sample_counter e + N) div samples_per_control e))
             ((sample_counter e + N) mod samples_per_control e) e)"
  using assms process_control_loop_closed_aux[of e N "nat N"]
  by (simp add: engine_inv_def)

lemma process_control_for_samples_inv:
  assumes "engine_inv e" "process_control_for_samples N e = Some e'"
  shows "engine_inv e'"
proof (cases "0 \<le> N")
  case True
  have s: "0 < samples_per_control e" using assms(1) by (simp add: engine_inv_def)
  show ?thesis
    using assms(2) after_ticks_inv[OF assms(1), of "(sample_counter e + N) mod samples_per_control e"] s
    unfolding process_control_for_samples_def process_control_loop_closed[OF assms(1) True]
    by auto
next
  case False
  then show ?thesis
    using assms by (simp add: process_control_for_samples_def process_control_loop_nonpos)
qed

subsection \<open>Float values\<close>

lemma f32_limit_big: "2 ^ 127 \<le> f32_limit"
  by (simp add: f32_limit_def)

lemma f64_limit_big: "2 ^ 1023 \<le> f64_limit"
  by (simp add: f64_limit_def)

lemma f32_Fin: "\<bar>a\<bar> < 2 ^ 127 \<Longrightarrow> f32 (Fin a) = Fin a"
  using f32_limit_big by (auto simp: f32_def overflow_at_def)

lemma f64_Fin: "\<bar>a\<bar> < 2 ^ 1023 \<Longrightarrow> f64 (Fin a) = Fin a"
  using f64_limit_big by (auto simp: f64_def overflow_at_def)

lemma f32_not_fin: "\<not> is_fin x \<Longrightarrow> f32 x = x"
  by (cases x) (simp_all add: f32_def overflow_at_def)

lemma f32_huge: "f32_limit \<le> a \<Longrightarrow> f32 (Fin a) = PInf"
  by (simp add: f32_def overflow_at_def)

lemma not_fin_fadd: "\<not> is_fin x \<Longrightarrow> \<not> is_fin (fadd x y) \<and> \<not> is_fin (fadd y x)"
  by (cases x; cases y) simp_all

lemma not_fin_fmul: "\<not> is_fin x \<Longrightarrow> \<not> is_fin (fmul x y) \<and> \<not> is_fin (fmul y x)"
  by (cases x; cases y) (simp_all add: inf_of_sign_def)

lemma not_fin_add32: "\<not> is_fin x \<Longrightarrow> \<not> is_fin (add32 x y) \<and> \<not> is_fin (add32 y x)"
  using not_fin_fadd[of x y] by (simp add: add32_def f32_not_fin)

lemma not_fin_mul32: "\<not> is_fin x \<Longrightarrow> \<not> is_fin (mul32 x y) \<and> \<not> is_fin (mul32 y x)"
  using not_fin_fmul[of x y] by (simp add: mul32_def f32_not_fin)

lemma mul32_zero_not_fin: "\<not> is_fin x \<Longrightarrow> mul32 x (Fin 0) = NaN"
  by (cases x) (simp_all add: mul32_def f32_def overflow_at_def)

lemma foldl_add32_not_fin: "\<not> is_fin a \<Longrightarrow> \<not> is_fin (foldl add32 a xs)"
  by (induction xs arbitrary: a) (simp_all add: not_fin_add32)

lemma sum32_not_fin:
  assumes "x \<in> set xs" "\<not> is_fin x"
  shows "\<not> is_fin (sum32 xs)"
proof -
  have "\<And>a. \<not> is_fin (foldl add32 a xs)"
    using assms
  proof (induction xs)
    case Nil
    then show ?case by simp
  next
    case (Cons y ys)
    show ?case
    proof (cases "x = y")
      case True
      then show ?thesis using Cons.prems(2) by (simp add: foldl_add32_not_fin not_fin_add32)
    next
      case False
      then show ?thesis using Cons by simp
    qed
  qed
  then show ?thesis by (simp add: sum32_def)
qed

lemma ftanh_in_unit: "x \<noteq> NaN \<Longrightarrow> in_unit (ftanh x)"
  using tanh_real_gt_neg1 tanh_real_lt_1 by (cases x) (simp_all add: less_imp_le)

subsection \<open>Rendering\<close>


lemma fmod_id: "0 \<le> x \<Longrightarrow> x < y \<Longrightarrow> fmod x y = x"
proof -
  assume h: "0 \<le> x" "x < y"
  then have "0 \<le> x / y" "x / y < 1" by simp_all
  then have "\<lfloor>x / y\<rfloor> = 0" by linarith
  then show ?thesis by (simp add: fmod_def)
qed

lemma length_node_freq: "length (node_freq e) = min (length (base_freq e)) (length (dphi e))"
  by (simp add: node_freq_def)

lemma length_phase_inc: "length (phase_inc k e) = min (length (base_freq e)) (length (dphi e))"
  by (simp add: phase_inc_def length_node_freq)

lemma render_block_shape:
  "\<exists>L R P. render_block N g k e = (L, R, e\<lparr>node_phase := P\<rparr>) \<and>
     length L = N \<and> length R = N \<and>
     length P = min (length (node_phase e)) (min (length (base_freq e)) (length (dphi e)))"
  unfolding render_block_def Let_def
  by (intro exI conjI, rule refl) (simp_all add: length_phase_inc)


lemma two_pi_small: "2 * pi < 2 ^ 127"
proof -
  have "2 * pi < 8" using pi_less_4 by simp
  also have "(8::real) \<le> 2 ^ 127" by simp
  finally show ?thesis .
qed

lemma wrap_unchanged:
  assumes "wrapped p" "is_fin inc"
  shows "f32 (fmod_f (add32 p (mul32 inc (f32 (Fin (real (0::nat)))))) (2 * pi)) = p"
proof -
  obtain a where p: "p = Fin a" and a: "0 \<le> a" "a < 2 * pi"
    using assms(1) by (cases p) simp_all
  obtain c where c: "inc = Fin c" using assms(2) by (cases inc) simp_all
  have s: "\<bar>a\<bar> < 2 ^ 127" using a two_pi_small by simp
  have "mul32 inc (f32 (Fin (real (0::nat)))) = Fin 0"
    by (simp add: c mul32_def f32_Fin)
  then have "add32 p (mul32 inc (f32 (Fin (real (0::nat))))) = Fin a"
    using s by (simp add: p add32_def f32_Fin)
  then show ?thesis
    using a s by (simp add: p fmod_id f32_Fin)
qed

lemma render_closed:
  assumes "engine_inv e" "sample_rate e \<noteq> 0" "0 \<le> N"
  shows "render N g e =
     Some (Inr (render_block (nat N) g (f64 (Fin (2 * pi / sample_rate e)))
        (after_ticks (nat ((sample_counter e + N) div samples_per_control e))
             ((sample_counter e + N) mod samples_per_control e) e)))"
  using assms
  by (simp add: render_def process_control_for_samples_def process_control_loop_closed Let_def)

lemma render_errors:
  "N < 0 \<Longrightarrow> render N g e = Some (Inl ValueError)"
  "0 \<le> N \<Longrightarrow> sample_rate e = 0 \<Longrightarrow> render N g e = Some (Inl ZeroDivisionError)"
  by (simp_all add: render_def)

lemma funpow_num_nodes: "num_nodes ((control_step ^^ k) e) = num_nodes e"
  by (induction k) (simp_all add: control_step_frame)

lemma render_control_part:
  assumes "engine_inv e" "render N g e = Some (Inr (L, R, e'))"
  shows "\<exists>P. e' = (after_ticks (nat ((sample_counter e + N) div samples_per_control e))
             ((sample_counter e + N) mod samples_per_control e) e)\<lparr>node_phase := P\<rparr> \<and>
           length P = num_nodes e"
    and "0 \<le> N" and "sample_rate e \<noteq> 0"
proof -
  show N: "0 \<le> N" and sr: "sample_rate e \<noteq> 0"
    using assms(2) by (auto simp: render_def split: if_splits)
  let ?a = "after_ticks (nat ((sample_counter e + N) div samples_per_control e))
             ((sample_counter e + N) mod samples_per_control e) e"
  have s: "0 < samples_per_control e" using assms(1) by (simp add: engine_inv_def)
  have ia: "engine_inv ?a"
    using s by (intro after_ticks_inv[OF assms(1)]) simp_all
  obtain L' R' P where
    b: "render_block (nat N) g (f64 (Fin (2 * pi / sample_rate e))) ?a = (L', R', ?a\<lparr>node_phase := P\<rparr>)"
    and l: "length P = min (length (node_phase ?a)) (min (length (base_freq ?a)) (length (dphi ?a)))"
    using render_block_shape[of "nat N" g "f64 (Fin (2 * pi / sample_rate e))" ?a] by blast
  have n: "num_nodes ?a = num_nodes e"
    by (simp add: after_ticks_def funpow_num_nodes)
  have "e' = ?a\<lparr>node_phase := P\<rparr>"
    using assms(2) unfolding render_closed[OF assms(1) sr N] b by simp
  moreover have "length P = num_nodes e"
    using l ia n by (simp add: engine_inv_def)
  ultimately show "\<exists>P. e' = ?a\<lparr>node_phase := P\<rparr> \<and> length P = num_nodes e" by blast
qed


lemma render_inv:
  assumes "engine_inv e" "render N g e = Some (Inr (L, R, e'))"
  shows "engine_inv e'"
proof -
  let ?a = "after_ticks (nat ((sample_counter e + N) div samples_per_control e))
             ((sample_counter e + N) mod samples_per_control e) e"
  obtain P where e': "e' = ?a\<lparr>node_phase := P\<rparr>" and l: "length P = num_nodes e"
    using render_control_part(1)[OF assms] by blast
  have s: "0 < samples_per_control e" using assms(1) by (simp add: engine_inv_def)
  have ia: "engine_inv ?a"
    using s by (intro after_ticks_inv[OF assms(1)]) simp_all
  have n: "num_nodes ?a = num_nodes e"
    by (simp add: after_ticks_def funpow_num_nodes)
  show ?thesis
    using ia l n unfolding e' by (simp add: engine_inv_def)
qed

lemma render_cases:
  assumes "engine_inv e"
  shows "(\<exists>err. render N g e = Some (Inl err)) \<or>
         (\<exists>L R e'. render N g e = Some (Inr (L, R, e')) \<and> engine_inv e' \<and>
            sample_rate e' = sample_rate e)"
proof (cases "0 \<le> N \<and> sample_rate e \<noteq> 0")
  case False
  then have "N < 0 \<or> (0 \<le> N \<and> sample_rate e = 0)" by linarith
  then have "\<exists>err. render N g e = Some (Inl err)"
    using render_errors(1)[where N = N and g = g and e = e]
          render_errors(2)[where N = N and g = g and e = e] by blast
  then show ?thesis by blast
next
  case True
  let ?a = "after_ticks (nat ((sample_counter e + N) div samples_per_control e))
             ((sample_counter e + N) mod samples_per_control e) e"
  let ?k = "f64 (Fin (2 * pi / sample_rate e))"
  obtain L R P where b: "render_block (nat N) g ?k ?a = (L, R, ?a\<lparr>node_phase := P\<rparr>)"
    using render_block_shape[of "nat N" g ?k ?a] by blast
  have r: "render N g e = Some (Inr (L, R, ?a\<lparr>node_phase := P\<rparr>))"
    using True render_closed[OF assms, of N g] b by simp
  then have "engine_inv (?a\<lparr>node_phase := P\<rparr>)" using render_inv[OF assms] by blast
  moreover have "sample_rate (?a\<lparr>node_phase := P\<rparr>) = sample_rate e"
    by (simp add: after_ticks_frame)
  ultimately show ?thesis using r by blast
qed

lemma render_seq_total: "engine_inv e \<Longrightarrow> \<exists>r. render_seq calls e = Some r"
proof (induction calls arbitrary: e)
  case Nil
  then show ?case by simp
next
  case (Cons c calls)
  obtain n g where c: "c = (n, g)" by (cases c)
  from render_cases[OF Cons.prems, of n g] show ?case
  proof (elim disjE exE conjE)
    fix err assume "render n g e = Some (Inl err)"
    then show ?thesis by (simp add: c)
  next
    fix L R e' assume r: "render n g e = Some (Inr (L, R, e'))" and i: "engine_inv e'"
    obtain r' where "render_seq calls e' = Some r'" using Cons.IH[OF i] by blast
    then show ?thesis using r by (cases r') (auto simp: c)
  qed
qed

subsection \<open>Construction and reachable engines\<close>

lemma length_base_freqs: "length (base_freqs n) = n"
  by (simp add: base_freqs_def Let_def)

lemma init_fields:
  assumes "init default_rng n sr cr seed = Inr e"
  shows "0 < n" "cr \<noteq> 0" "num_nodes e = nat n" "sample_rate e = sr" "control_rate e = cr"
    "macros e = default_macros" "sample_counter e = 0" "ticks_fired e = 0"
    "samples_per_control e = max 1 (py_round (sr / cr))"
    "node_phase e = map Fin (zeros (nat n))" "dphi e = zeros (nat n)" "damp e = ones (nat n)"
    "morph e = zeros (nat n)" "qs e = replicate (nat n) (zeros 8)"
    "base_freq e = base_freqs (nat n)"
    "sparse_idx e = map (\<lambda>i. map (\<lambda>j. (17 * i + 20 * j) mod 240) [0..<12]) [0..<nat n]"
    "torus e = \<lparr>theta = zeros 8, omega = zeros 8\<rparr>"
    "rng e = \<lparr>draws = default_rng seed, consumed = 0\<rparr>"
  using assms
  by (auto simp: init_def generate_e8_roots_eq sparse_formula split: if_splits)

lemma init_succeeds:
  "0 < n \<Longrightarrow> cr \<noteq> 0 \<Longrightarrow> \<exists>e. init default_rng n sr cr seed = Inr e"
  by (simp add: init_def generate_e8_roots_eq sparse_formula)

lemma init_inv:
  assumes "init default_rng n sr cr seed = Inr e"
  shows "engine_inv e"
  unfolding engine_inv_def init_fields[OF assms]
  by (simp add: zeros_def ones_def length_base_freqs list_all_iff del: upt_Suc)

lemma set_macros_inv: "engine_inv (set_macros overrides e) = engine_inv e"
  by (simp add: set_macros_def engine_inv_def)

lemma reachable_inv: "reachable e \<Longrightarrow> engine_inv e"
proof (induction rule: reachable.induct)
  case (reach_init default_rng n sr cr seed e)
  then show ?case by (rule init_inv)
next
  case (reach_set_macros e overrides)
  then show ?case by (simp add: set_macros_inv)
next
  case (reach_control_step e)
  then show ?case using control_step_inv by blast
next
  case (reach_process e n e')
  then show ?case using process_control_for_samples_inv by blast
next
  case (reach_render e n g L R e')
  then show ?case using render_inv by blast
qed


subsection \<open>Oscillator phases and phase increments\<close>





lemma node_freq_entry:
  "\<exists>c. clip_f (add32 (Fin f) (div32 (Fin d) (2 * pi))) 1 20000 = Fin c \<and> 1 \<le> c \<and> c \<le> 20000"
proof -
  have "div32 (Fin d) (2 * pi) \<noteq> NaN"
    by (simp add: f32_def overflow_at_def)
  then have "add32 (Fin f) (div32 (Fin d) (2 * pi)) \<noteq> NaN"
    by (cases "div32 (Fin d) (2 * pi)") (simp_all add: add32_def f32_def overflow_at_def)
  then show ?thesis
    by (cases "add32 (Fin f) (div32 (Fin d) (2 * pi))") (simp_all add: clip_def)
qed

lemma node_freq_bounded:
  assumes "x \<in> set (node_freq e)"
  shows "\<exists>c. x = Fin c \<and> 1 \<le> c \<and> c \<le> 20000"
proof -
  obtain f d where "x = clip_f (add32 (Fin f) (div32 (Fin d) (2 * pi))) 1 20000"
    using assms unfolding node_freq_def by (auto simp: in_set_zip)
  then show ?thesis using node_freq_entry[of f d] by simp
qed

lemma phase_inc_finite:
  assumes "1 \<le> \<bar>sample_rate e\<bar>"
  shows "list_all is_fin (phase_inc (f64 (Fin (2 * pi / sample_rate e))) e)"
proof -
  define q where "q = 2 * pi / sample_rate e"
  have "\<bar>q\<bar> = 2 * pi / \<bar>sample_rate e\<bar>" by (simp add: q_def)
  also have "\<dots> \<le> 2 * pi" using assms by (simp add: divide_le_eq)
  finally have q: "\<bar>q\<bar> \<le> 2 * pi" .
  have q8: "\<bar>q\<bar> < 8" using q pi_less_4 by simp
  have "\<bar>q\<bar> < 2 ^ 1023" "\<bar>q\<bar> < 2 ^ 127" using q8 by simp_all
  then have k: "f32 (f64 (Fin q)) = Fin q" by (simp add: f64_Fin f32_Fin)
  have "is_fin (mul32 (Fin q) x)" if h: "x \<in> set (node_freq e)" for x
  proof -
    obtain c where c: "x = Fin c" "1 \<le> c" "c \<le> 20000"
      using node_freq_bounded[OF h] by blast
    have "\<bar>q * c\<bar> = \<bar>q\<bar> * c" using c(2) by (simp add: abs_mult)
    also have "\<dots> \<le> 8 * 20000" using q8 c by (intro mult_mono) simp_all
    also have "\<dots> < (2::real) ^ 127" by simp
    finally have "\<bar>q * c\<bar> < 2 ^ 127" .
    then show ?thesis by (simp add: c(1) mul32_def f32_Fin)
  qed
  then show ?thesis
    unfolding phase_inc_def q_def[symmetric] k list_all_iff by simp
qed

lemma wrap_unchanged_nan:
  "f32 (fmod_f (add32 NaN x) (2 * pi)) = NaN"
  by (simp add: add32_def f32_def overflow_at_def)

lemma render_block_zero_ok:
  assumes "length (node_phase e) = length (phase_inc k e)"
    "phases_ok e" "list_all is_fin (phase_inc k e)"
  shows "render_block 0 g k e = ([], [], e)"
proof -
  let ?f = "\<lambda>p inc. f32 (fmod_f (add32 p (mul32 inc (f32 (Fin (real (0::nat)))))) (2 * pi))"
  have "map2 ?f (node_phase e) (phase_inc k e) = node_phase e"
  proof (rule nth_equalityI)
    show "length (map2 ?f (node_phase e) (phase_inc k e)) = length (node_phase e)"
      using assms(1) by simp
  next
    fix i assume "i < length (map2 ?f (node_phase e) (phase_inc k e))"
    then have i: "i < length (node_phase e)" "i < length (phase_inc k e)"
      using assms(1) by simp_all
    then have w: "wrapped (node_phase e ! i) \<or> node_phase e ! i = NaN"
      and f: "is_fin (phase_inc k e ! i)"
      using assms(2,3) by (simp_all add: phases_ok_def list_all_length)
    have "?f (node_phase e ! i) (phase_inc k e ! i) = node_phase e ! i"
      using w
    proof
      assume "wrapped (node_phase e ! i)"
      then show ?thesis using f by (rule wrap_unchanged)
    next
      assume "node_phase e ! i = NaN"
      then show ?thesis by (simp add: wrap_unchanged_nan)
    qed
    then show "map2 ?f (node_phase e) (phase_inc k e) ! i = node_phase e ! i"
      using i by simp
  qed
  then show ?thesis
    unfolding render_block_def Let_def by simp
qed

lemma render_zero_closed:
  assumes "engine_inv e" "phases_ok e" "1 \<le> \<bar>sample_rate e\<bar>"
  shows "render 0 g e = Some (Inr ([], [], e))"
proof -
  let ?k = "f64 (Fin (2 * pi / sample_rate e))"
  have l: "length (node_phase e) = length (phase_inc ?k e)"
    using assms(1) by (simp add: length_phase_inc engine_inv_def)
  have sr: "sample_rate e \<noteq> 0" using assms(3) by auto
  show ?thesis
    using sr
    by (simp add: render_def process_control_for_samples_def process_control_loop_nonpos
          render_block_zero_ok[OF l assms(2) phase_inc_finite[OF assms(3)]])
qed


subsection \<open>A base gain beyond the float32 range\<close>

lemma f32_zero: "f32 (Fin 0) = Fin 0"
  by (simp add: f32_Fin)

lemma silenced_nan:
  assumes "\<not> is_fin x"
  shows "ftanh (mul32 (mul32 a x) (f32 (Fin 0))) = NaN"
proof -
  have "\<not> is_fin (mul32 a x)" using not_fin_mul32[OF assms, of a] by simp
  then show ?thesis by (simp add: f32_zero mul32_zero_not_fin)
qed

lemma render_block_nan:
  assumes "\<not> is_fin (f32 g)" "EnergyFlow (macros e) = 0" "0 < num_nodes e"
    "length (damp e) = num_nodes e"
  shows "\<exists>e'. render_block N g k e = (replicate N NaN, replicate N NaN, e')"
proof -
  define amp where "amp = map (\<lambda>d. mul32 (f32 g) (Fin d)) (damp e)"
  define sig where "sig = (\<lambda>n t. mul32
                    (morph_wave (add32 (node_phase e ! n) (mul32 (phase_inc k e ! n) (f32 (Fin (real t)))))
                       (Fin (morph e ! n)))
                    (amp ! n))"
  define mix where "mix = map (\<lambda>t. sum32 (map (\<lambda>n. sig n t) [0..<num_nodes e])) [0..<N]"
  have a0: "\<not> is_fin (amp ! 0)"
    using assms(3,4) not_fin_mul32[OF assms(1), of "Fin (damp e ! 0)"] by (simp add: amp_def)
  have s0: "\<not> is_fin (sig 0 t)" for t
    using not_fin_mul32[OF a0] by (simp add: sig_def)
  have m: "\<not> is_fin x" if h: "x \<in> set mix" for x
  proof -
    obtain t where x: "x = sum32 (map (\<lambda>n. sig n t) [0..<num_nodes e])"
      using h by (auto simp: mix_def)
    have "sig 0 t \<in> set (map (\<lambda>n. sig n t) [0..<num_nodes e])"
      using assms(3) by (simp add: image_iff) (rule bexI[of _ 0], simp_all)
    then show ?thesis unfolding x using s0[of t] by (rule sum32_not_fin)
  qed
  have c: "map (\<lambda>x. ftanh (mul32 (mul32 a x) (f32 (Fin 0)))) mix = replicate N NaN" for a
  proof -
    have "map (\<lambda>x. ftanh (mul32 (mul32 a x) (f32 (Fin 0)))) mix = map (\<lambda>x. NaN) mix"
      by (rule map_cong[OF refl]) (simp add: m silenced_nan)
    also have "\<dots> = replicate N NaN" by (simp add: map_replicate_const mix_def)
    finally show ?thesis .
  qed
  define pan where "pan = add32 (Fin (1 / 2)) (mul32 (Fin (1 / 2)) (fsin (Fin (theta (torus e) ! 4))))"
  have "\<exists>e'. render_block N g k e =
          (map (\<lambda>x. ftanh (mul32 (mul32 (sub32 (Fin 1) pan) x) (f32 (Fin 0)))) mix,
           map (\<lambda>x. ftanh (mul32 (mul32 pan x) (f32 (Fin 0)))) mix, e')"
    unfolding render_block_def Let_def assms(2) amp_def sig_def mix_def pan_def
    by (intro exI) (rule refl)
  then show ?thesis unfolding c .
qed

lemma huge_gain: "f32 (Fin (10 ^ 308)) = PInf"
proof -
  have "f32_limit \<le> 2 ^ 128" by (simp add: f32_limit_def)
  also have "(2::real) ^ 128 \<le> 10 ^ 308" by simp
  finally show ?thesis by (rule f32_huge)
qed

section \<open>Claims about rendering\<close>

lemma fresh_engine_muted:
  assumes "init default_rng 8 48000 1000 seed = Inr e"
  shows "\<exists>e'. render 2 (Fin (10 ^ 308)) (set_macros [(''EnergyFlow'', 0)] e) =
           Some (Inr ([NaN, NaN], [NaN, NaN], e'))"
proof -
  let ?e0 = "set_macros [(''EnergyFlow'', 0)] e"
  let ?g = "Fin (10 ^ 308)"
  let ?a = "after_ticks (nat ((sample_counter ?e0 + 2) div samples_per_control ?e0))
             ((sample_counter ?e0 + 2) mod samples_per_control ?e0) ?e0"
  have i: "engine_inv ?e0" using init_inv[OF assms] by (simp add: set_macros_inv)
  have sr: "sample_rate ?e0 \<noteq> 0" using init_fields(4)[OF assms] by (simp add: set_macros_def)
  have r: "render 2 ?g ?e0 =
      Some (Inr (render_block (nat 2) ?g (f64 (Fin (2 * pi / sample_rate ?e0))) ?a))"
    using render_closed[OF i sr, of 2 ?g] by simp
  have s: "0 < samples_per_control ?e0" using i by (simp add: engine_inv_def)
  have ia: "engine_inv ?a"
    using s by (intro after_ticks_inv[OF i]) simp_all
  have n: "num_nodes ?a = 8"
    using init_fields(3)[OF assms] by (simp add: after_ticks_def funpow_num_nodes set_macros_def)
  have m: "EnergyFlow (macros ?a) = 0"
    by (simp add: after_ticks_frame) (simp add: set_macros_def)
  have g: "\<not> is_fin (f32 ?g)" unfolding huge_gain by simp
  have "0 < num_nodes ?a" "length (damp ?a) = num_nodes ?a"
    using n ia by (simp_all add: engine_inv_def)
  from render_block_nan[OF g m this, of "nat 2" "f64 (Fin (2 * pi / sample_rate ?e0))"]
  obtain e' where "render_block (nat 2) ?g (f64 (Fin (2 * pi / sample_rate ?e0))) ?a =
      (replicate (nat 2) NaN, replicate (nat 2) NaN, e')" by blast
  then have "render 2 ?g ?e0 = Some (Inr ([NaN, NaN], [NaN, NaN], e'))"
    unfolding r by (simp add: eval_nat_numeral)
  then show ?thesis by blast
qed

text \<open>
  Claim C1 fails for a base gain beyond the float32 range. On a freshly constructed engine
  (8 nodes, sample rate 48000, control rate 1000) with the macro \<open>EnergyFlow\<close> set to 0,
  \<open>render\<close> of 2 samples with the base gain \<open>1e308\<close> returns two channels whose sample
  1 is NaN, and NaN lies in no interval. The amplitudes are not finite in float32, so
  the mix is not finite; its product with the output gain 0 is NaN, and \<open>tanh\<close> keeps it.
\<close>

theorem render_output_nan:
  "map_option (map_sum id (hd \<circ> tl \<circ> fst))
     (render 2 (Fin (10 ^ 308))
        (set_macros [(''EnergyFlow'', 0)] (projr (init zero_stream 8 48000 1000 0)))) =
     Some (Inr NaN) \<and>
   map_option (map_sum id (hd \<circ> tl \<circ> fst \<circ> snd))
     (render 2 (Fin (10 ^ 308))
        (set_macros [(''EnergyFlow'', 0)] (projr (init zero_stream 8 48000 1000 0)))) =
     Some (Inr NaN) \<and>
   \<not> in_unit NaN"
proof -
  obtain e where e: "init zero_stream 8 48000 1000 0 = Inr e"
    using init_succeeds[of 8 1000 zero_stream 48000 0] by auto
  obtain e' where "render 2 (Fin (10 ^ 308)) (set_macros [(''EnergyFlow'', 0)] e) =
           Some (Inr ([NaN, NaN], [NaN, NaN], e'))"
    using fresh_engine_muted[OF e] by blast
  then show ?thesis unfolding e by simp
qed




section \<open>Tick accounting across render calls\<close>

lemma chunk_arith:
  fixes s c n m :: int
  assumes "1 \<le> s" "0 \<le> c" "0 \<le> n" "0 \<le> m"
  shows "nat ((c + n) div s) + nat (((c + n) mod s + m) div s) = nat ((c + (n + m)) div s)"
    and "((c + n) mod s + m) mod s = (c + (n + m)) mod s"
proof -
  define a where "a = c + n"
  have s: "s \<noteq> 0" "0 < s" using assms(1) by simp_all
  have a0: "0 \<le> a" using assms by (simp add: a_def)
  have r0: "0 \<le> a mod s" using s by simp
  have "a + m = (a mod s + m) + s * (a div s)" by simp
  then have "(a + m) div s = a div s + (a mod s + m) div s"
    using div_mult_self2[OF s(1), of "a mod s + m" "a div s"] by simp
  moreover have "0 \<le> a div s" using a0 s by (simp add: pos_imp_zdiv_nonneg_iff)
  moreover have "0 \<le> (a mod s + m) div s"
    using r0 assms(4) s by (simp add: pos_imp_zdiv_nonneg_iff)
  ultimately have "nat (a div s) + nat ((a mod s + m) div s) = nat ((a + m) div s)"
    by simp
  then show "nat ((c + n) div s) + nat (((c + n) mod s + m) div s) = nat ((c + (n + m)) div s)"
    by (simp add: a_def add.assoc)
  show "((c + n) mod s + m) mod s = (c + (n + m)) mod s"
    by (simp add: mod_add_left_eq add.assoc)
qed

lemma render_seq_control:
  assumes "engine_inv e" "sample_rate e \<noteq> 0" "\<forall>c\<in>set calls. 0 \<le> fst c"
  shows "\<exists>outs P. render_seq calls e =
     Some (Inr (outs,
       (after_ticks (nat ((sample_counter e + sum_list (map fst calls)) div samples_per_control e))
          ((sample_counter e + sum_list (map fst calls)) mod samples_per_control e) e)
       \<lparr>node_phase := P\<rparr>))"
  using assms
proof (induction calls arbitrary: e)
  case Nil
  have c: "0 \<le> sample_counter e" "sample_counter e < samples_per_control e"
    using Nil.prems(1) by (simp_all add: engine_inv_def)
  have "e = (after_ticks 0 (sample_counter e) e)\<lparr>node_phase := node_phase e\<rparr>"
    by (simp add: after_ticks_0)
  then show ?case using c by auto
next
  case (Cons call calls)
  obtain n g where call: "call = (n, g)" by (cases call)
  let ?s = "samples_per_control e"
  let ?c = "sample_counter e"
  let ?m = "sum_list (map fst calls)"
  have n: "0 \<le> n" and rest: "\<forall>c\<in>set calls. 0 \<le> fst c"
    using Cons.prems(3) by (simp_all add: call)
  have m: "0 \<le> ?m" using rest by (intro sum_list_nonneg) auto
  have inv: "1 \<le> ?s" "0 \<le> ?c"
    using Cons.prems(1) by (simp_all add: engine_inv_def)
  obtain L R e1 where r: "render n g e = Some (Inr (L, R, e1))" and i1: "engine_inv e1"
    and sr1: "sample_rate e1 = sample_rate e"
    using render_cases[OF Cons.prems(1), of n g] render_closed[OF Cons.prems(1,2) n, of g]
    by auto
  obtain P1 where e1: "e1 = (after_ticks (nat ((?c + n) div ?s)) ((?c + n) mod ?s) e)\<lparr>node_phase := P1\<rparr>"
    using render_control_part(1)[OF Cons.prems(1) r] by blast
  have f1: "sample_counter e1 = (?c + n) mod ?s" "samples_per_control e1 = ?s"
    unfolding e1 by (simp_all add: after_ticks_frame)
  obtain outs P where ih: "render_seq calls e1 =
     Some (Inr (outs,
       (after_ticks (nat ((sample_counter e1 + ?m) div samples_per_control e1))
          ((sample_counter e1 + ?m) mod samples_per_control e1) e1)\<lparr>node_phase := P\<rparr>))"
    using Cons.IH[OF i1 _ rest] sr1 Cons.prems(2) by auto
  have comp: "(after_ticks (nat ((sample_counter e1 + ?m) div samples_per_control e1))
          ((sample_counter e1 + ?m) mod samples_per_control e1) e1)\<lparr>node_phase := P\<rparr>
        = (after_ticks (nat ((?c + (n + ?m)) div ?s)) ((?c + (n + ?m)) mod ?s) e)\<lparr>node_phase := P\<rparr>"
    unfolding f1 chunk_arith(2)[OF inv n m]
    unfolding e1 after_ticks_node_phase after_ticks_after_ticks chunk_arith(1)[OF inv n m]
    by simp
  have res: "render_seq (call # calls) e =
      Some (Inr ((L, R) # outs,
        (after_ticks (nat ((?c + (n + ?m)) div ?s)) ((?c + (n + ?m)) mod ?s) e)\<lparr>node_phase := P\<rparr>))"
    using r ih unfolding comp by (simp add: call)
  have sm: "sum_list (map fst (call # calls)) = n + ?m" by (simp add: call)
  show ?case unfolding sm res by blast
qed

text \<open>
  Claim C3. Starting from the same reachable engine state, a single \<open>render\<close> of \<open>N\<close>
  samples and any sequence of render calls whose nonnegative sample counts sum to \<open>N\<close>
  (whatever their base gains) fire the same number of control ticks, namely
  \<open>(counter + N) div samples_per_control\<close>, and end with the same torus, the same node
  state vectors, the same counter, generator state and modulation outputs.
\<close>

theorem tick_accounting_split:
  assumes "reachable e" "render N g e = Some (Inr (L, R, e1))"
    "sum_list (map fst calls) = N" "\<forall>c\<in>set calls. 0 \<le> fst c"
  shows "\<exists>outs e2. render_seq calls e = Some (Inr (outs, e2)) \<and>
           ticks_fired e2 = ticks_fired e1 \<and>
           ticks_fired e1 =
             ticks_fired e + nat ((sample_counter e + N) div samples_per_control e) \<and>
           torus e2 = torus e1 \<and> qs e2 = qs e1 \<and>
           sample_counter e2 = sample_counter e1 \<and> rng e2 = rng e1 \<and>
           dphi e2 = dphi e1 \<and> damp e2 = damp e1 \<and> morph e2 = morph e1"
proof -
  have i: "engine_inv e" using assms(1) by (rule reachable_inv)
  let ?a = "after_ticks (nat ((sample_counter e + N) div samples_per_control e))
             ((sample_counter e + N) mod samples_per_control e) e"
  obtain P1 where e1: "e1 = ?a\<lparr>node_phase := P1\<rparr>"
    using render_control_part(1)[OF i assms(2)] by blast
  have sr: "sample_rate e \<noteq> 0" using render_control_part(3)[OF i assms(2)] .
  obtain outs P where s: "render_seq calls e = Some (Inr (outs, ?a\<lparr>node_phase := P\<rparr>))"
    using render_seq_control[OF i sr assms(4)] unfolding assms(3) by blast
  show ?thesis
    unfolding s e1 by (simp add: after_ticks_frame)
qed

theorem tick_accounting_split_witness:
  "\<exists>e L R e1 outs e2. init zero_stream 8 48000 1000 0 = Inr e \<and>
     render 100 (Fin (1 / 5)) e = Some (Inr (L, R, e1)) \<and>
     render_seq [(30, Fin (1 / 5)), (0, Fin 1), (70, Fin (1 / 10))] e = Some (Inr (outs, e2)) \<and>
     ticks_fired e1 = 2 \<and> ticks_fired e2 = 2 \<and> torus e2 = torus e1 \<and> qs e2 = qs e1"
proof -
  obtain e where e: "init zero_stream 8 48000 1000 0 = Inr e"
    using init_succeeds[of 8 1000 zero_stream 48000 0] by auto
  have re: "reachable e" using e by (rule reach_init)
  have sr: "sample_rate e \<noteq> 0" using init_fields(4)[OF e] by simp
  have spc: "samples_per_control e = 48" "sample_counter e = 0" "ticks_fired e = 0"
    using init_fields(7,8,9)[OF e] by (simp_all add: py_round_def)
  obtain L R e1 where r: "render 100 (Fin (1 / 5)) e = Some (Inr (L, R, e1))"
    using render_closed[OF reachable_inv[OF re] sr, of 100 "Fin (1 / 5)"] by (metis prod_cases3 zero_le_numeral)
  have calls: "sum_list (map fst [(30, Fin (1 / 5)), (0, Fin 1), (70, Fin (1 / 10))]) = (100::int)"
    "\<forall>c\<in>set [(30, Fin (1 / 5)), (0, Fin 1), (70, Fin (1 / 10))]. (0::int) \<le> fst c"
    by simp_all
  from tick_accounting_split[OF re r calls] obtain outs e2 where
    s: "render_seq [(30, Fin (1 / 5)), (0, Fin 1), (70, Fin (1 / 10))] e = Some (Inr (outs, e2))"
       "ticks_fired e2 = ticks_fired e1"
       "ticks_fired e1 = ticks_fired e + nat ((sample_counter e + 100) div samples_per_control e)"
       "torus e2 = torus e1" "qs e2 = qs e1"
    by blast
  have "ticks_fired e1 = 2" using s(3) by (simp add: spc)
  then show ?thesis using e r s by auto
qed

section \<open>The inert macros\<close>

lemma with_inert_frame:
  "sample_rate (with_inert d w e) = sample_rate e"
  "sample_counter (with_inert d w e) = sample_counter e"
  "samples_per_control (with_inert d w e) = samples_per_control e"
  "engine_inv (with_inert d w e) = engine_inv e"
  by (simp_all add: with_inert_def engine_inv_def)

lemma render_block_with_inert:
  "render_block N g k e = (L, R, e') \<Longrightarrow>
   render_block N g k (with_inert d w e) = (L, R, with_inert d w e')"
  by (auto simp: render_block_def with_inert_def Let_def phase_inc_def node_freq_def)

lemma render_with_inert:
  assumes "engine_inv e"
  shows "render N g (with_inert d w e) =
     (case render N g e of
        None \<Rightarrow> None
      | Some (Inl err) \<Rightarrow> Some (Inl err)
      | Some (Inr (L, R, e')) \<Rightarrow> Some (Inr (L, R, with_inert d w e')))"
proof (cases "0 \<le> N \<and> sample_rate e \<noteq> 0")
  case False
  then have "N < 0 \<or> (0 \<le> N \<and> sample_rate e = 0)" by linarith
  then show ?thesis
    by (auto simp: render_def with_inert_frame)
next
  case True
  let ?a = "after_ticks (nat ((sample_counter e + N) div samples_per_control e))
             ((sample_counter e + N) mod samples_per_control e) e"
  obtain L R e' where b: "render_block (nat N) g (f64 (Fin (2 * pi / sample_rate e))) ?a = (L, R, e')"
    by (metis prod_cases3)
  have i: "engine_inv (with_inert d w e)" using assms by (simp add: with_inert_frame)
  have "render N g (with_inert d w e) = Some (Inr (L, R, with_inert d w e'))"
    using True render_closed[OF i, of N g] render_block_with_inert[OF b, of d w]
    by (simp add: with_inert_frame after_ticks_with_inert)
  moreover have "render N g e = Some (Inr (L, R, e'))"
    using True render_closed[OF assms, of N g] b by simp
  ultimately show ?thesis by simp
qed

lemma render_seq_with_inert:
  assumes "engine_inv e"
  shows "\<exists>r. render_seq calls e = Some r \<and>
          render_seq calls (with_inert d w e) =
            Some (case r of Inl err \<Rightarrow> Inl err
                  | Inr (outs, e') \<Rightarrow> Inr (outs, with_inert d w e'))"
  using assms
proof (induction calls arbitrary: e)
  case Nil
  then show ?case by simp
next
  case (Cons call calls)
  obtain n g where call: "call = (n, g)" by (cases call)
  from render_cases[OF Cons.prems, of n g] show ?case
  proof (elim disjE exE conjE)
    fix err assume r: "render n g e = Some (Inl err)"
    then have "render n g (with_inert d w e) = Some (Inl err)"
      using render_with_inert[OF Cons.prems, of n g d w] by simp
    then show ?thesis using r by (simp add: call)
  next
    fix L R e1 assume r: "render n g e = Some (Inr (L, R, e1))" and i1: "engine_inv e1"
    have r': "render n g (with_inert d w e) = Some (Inr (L, R, with_inert d w e1))"
      using render_with_inert[OF Cons.prems, of n g d w] r by simp
    obtain r1 where ih: "render_seq calls e1 = Some r1"
      "render_seq calls (with_inert d w e1) =
         Some (case r1 of Inl err \<Rightarrow> Inl err | Inr (outs, e') \<Rightarrow> Inr (outs, with_inert d w e'))"
      using Cons.IH[OF i1] by blast
    show ?thesis
    proof (cases r1)
      case (Inl err)
      then show ?thesis using r r' ih by (simp add: call)
    next
      case (Inr p)
      obtain outs e2 where p: "p = (outs, e2)" by (cases p)
      show ?thesis using r r' ih Inr p by (simp add: call)
    qed
  qed
qed

text \<open>
  Claim C8. The macros \<open>CosmicDepth\<close> and \<open>SpatialWarp\<close> have no effect. Take a reachable
  engine and the engine that differs from it only in the values of these two macros. For
  every sequence of render calls both complete it, with the same exception or with the
  same channel arrays, and the final states again differ only in the two macro values.
  Since the sequence is arbitrary, this holds after every call.
\<close>

theorem inert_macros_no_effect:
  assumes "reachable e"
  shows "\<exists>r. render_seq calls e = Some r \<and>
          render_seq calls (with_inert d w e) =
            Some (case r of Inl err \<Rightarrow> Inl err
                  | Inr (outs, e') \<Rightarrow> Inr (outs, with_inert d w e'))"
  using reachable_inv[OF assms] by (rule render_seq_with_inert)

theorem inert_macros_no_effect_witness:
  "\<exists>e outs e'. init zero_stream 8 48000 1000 0 = Inr e \<and>
     render_seq [(100, Fin (1 / 5)), (20, Fin (1 / 10))] e = Some (Inr (outs, e')) \<and>
     render_seq [(100, Fin (1 / 5)), (20, Fin (1 / 10))] (with_inert 12 (1 / 2) e) =
       Some (Inr (outs, with_inert 12 (1 / 2) e'))"
proof -
  define calls :: "(int \<times> fval) list" where "calls = [(100, Fin (1 / 5)), (20, Fin (1 / 10))]"
  obtain e where e: "init zero_stream 8 48000 1000 0 = Inr e"
    using init_succeeds[of 8 1000 zero_stream 48000 0] by auto
  have re: "reachable e" using e by (rule reach_init)
  have i: "engine_inv e" using re by (rule reachable_inv)
  have sr: "sample_rate e \<noteq> 0" using init_fields(4)[OF e] by simp
  have nn: "\<forall>c\<in>set calls. 0 \<le> fst c" by (simp add: calls_def)
  obtain outs e' where s: "render_seq calls e = Some (Inr (outs, e'))"
    using render_seq_control[OF i sr nn] by blast
  from inert_macros_no_effect[OF re, of calls 12 "1 / 2"]
  have "render_seq calls (with_inert 12 (1 / 2) e) = Some (Inr (outs, with_inert 12 (1 / 2) e'))"
    unfolding s by simp
  then show ?thesis using e s unfolding calls_def by blast
qed

end
